theory Spec2Isabelle
  imports Main "HOL-Library.Product_Lexorder" "HOL-Library.Option_ord"
    "HOL-Library.List_Lexorder" "HOL-Library.Char_ord"
begin

section \<open>Data model: the tables of the reconciliation database\<close>

text \<open>
  The tables are those created by \<^verbatim>\<open>init_db\<close> (db_utils_v2.py); only the columns read or
  written by the matching engine are kept. A nullable column is an \<open>option\<close>. Strings are
  lists of 8-bit characters, read as the code points U+0000 to U+00FF.
\<close>

datatype base = FIS | CTB

record fis_row =
  f_ID :: "int option"
  f_NRBRM :: "int option"
  f_FRAG :: "string option"
  f_DESCRICAO :: "string option"
  f_DESC_NORM :: "string option"
  f_MODELO_NORM :: "string option"
  f_SERIE_NORM :: "string option"
  f_TAG_NORM :: "string option"
  f_SERIE :: "string option"
  f_TAG :: "string option"
  f_BEM_ANTERIOR :: "string option"

record ctb_row =
  c_ID :: "int option"
  c_NRBRM :: "int option"
  c_INC :: "int option"
  c_FRAG :: "string option"
  c_DESCRICAO :: "string option"
  c_DESC_NORM :: "string option"
  c_MODELO_NORM :: "string option"
  c_SERIE_NORM :: "string option"
  c_SERIE :: "string option"
  c_TAG :: "string option"
  c_BEM_ANTERIOR :: "string option"

record dp_row =
  dp_PAR_ID :: int
  dp_ST_CONCILIACAO :: string
  dp_ID_FISICO :: int
  dp_ID_CONTABIL :: int
  dp_NRBRM :: "int option"
  dp_INC_CONTABIL :: "int option"

record conc_row =
  cn_BASE :: base
  cn_ID :: int
  cn_PAR_ID :: int

text \<open>
  \<open>uq_conc_base_id\<close> tells whether the lock table carries the unique index on (BASE, ID):
  \<^verbatim>\<open>init_db\<close> creates it in its PostgreSQL branch only; the SQLite branch creates the plain
  index \<^verbatim>\<open>idx_conc_base_id\<close>.
\<close>

record db =
  fisico :: "fis_row list"
  contabil :: "ctb_row list"
  depara :: "dp_row list"
  conciliados :: "conc_row list"
  uq_conc_base_id :: bool

datatype error = TypeError

definition coalesce0 :: "int option \<Rightarrow> int" where
  "coalesce0 v = (case v of None \<Rightarrow> 0 | Some x \<Rightarrow> x)"

text \<open>\<^verbatim>\<open>SELECT 1 FROM conciliados WHERE BASE=? AND ID=? LIMIT 1\<close> returns a row.\<close>

definition locked :: "db \<Rightarrow> base \<Rightarrow> int \<Rightarrow> bool" where
  "locked d b i = (\<exists>r \<in> set (conciliados d). cn_BASE r = b \<and> cn_ID r = i)"

text \<open>
  \<^verbatim>\<open>INSERT OR IGNORE INTO conciliados\<close>, row by row (\<^verbatim>\<open>executemany\<close>): a row is ignored
  only when a uniqueness constraint rejects it, so without the unique index every row is
  appended.
\<close>

fun insert_or_ignore :: "bool \<Rightarrow> conc_row list \<Rightarrow> conc_row list \<Rightarrow> conc_row list" where
  "insert_or_ignore uq tbl [] = tbl"
| "insert_or_ignore uq tbl (r # rs) =
     insert_or_ignore uq
       (if uq \<and> (\<exists>x \<in> set tbl. cn_BASE x = cn_BASE r \<and> cn_ID x = cn_ID r) then tbl
        else tbl @ [r]) rs"

text \<open>\<^verbatim>\<open>SELECT MAX(PAR_ID) FROM depara\<close>: NULL on an empty table.\<close>

fun max_par_id :: "dp_row list \<Rightarrow> int option" where
  "max_par_id [] = None"
| "max_par_id (r # rs) =
     (case max_par_id rs of None \<Rightarrow> Some (dp_PAR_ID r) | Some m \<Rightarrow> Some (max (dp_PAR_ID r) m))"

section \<open>Pending counts (manual_db_v2_fixed.get_counts)\<close>

record PendingCounts =
  pc_fis :: nat
  pc_ctb :: nat

definition get_counts :: "db \<Rightarrow> PendingCounts" where
  "get_counts d =
     \<lparr> pc_fis = length (filter (\<lambda>r. case f_ID r of None \<Rightarrow> False
                                         | Some i \<Rightarrow> \<not> locked d FIS i) (fisico d)),
       pc_ctb = length (filter (\<lambda>r. case c_ID r of None \<Rightarrow> False
                                         | Some i \<Rightarrow> \<not> locked d CTB i) (contabil d)) \<rparr>"

section \<open>Commit: manual_db_v2_fixed.save_pairs\<close>

text \<open>The local variables of the loop over the pairs.\<close>

record sp_state =
  next_par_id :: int
  depara_rows :: "dp_row list"
  conc_rows :: "conc_row list"
  pending_ctb_ids :: "int set"
  pending_fis_ids :: "int set"
  saved :: int

text \<open>
  The NRBRM and INC written with a pair: from the accounting record when the pair has one,
  else from the physical record; \<open>None\<close> when the record no longer exists (the pair is
  dropped). \<^verbatim>\<open>fetchone\<close> takes the first row with that ID.
\<close>

definition lookup_nrbrm_inc :: "db \<Rightarrow> int \<Rightarrow> int \<Rightarrow> (int \<times> int option) option" where
  "lookup_nrbrm_inc d fis_id ctb_id =
     (if ctb_id > 0 then
        (case find (\<lambda>r. c_ID r = Some ctb_id) (contabil d) of
           None \<Rightarrow> None
         | Some rowc \<Rightarrow> Some (coalesce0 (c_NRBRM rowc), Some (coalesce0 (c_INC rowc))))
      else if fis_id > 0 then
        (case find (\<lambda>r. f_ID r = Some fis_id) (fisico d) of
           None \<Rightarrow> None
         | Some rowf \<Rightarrow> Some (coalesce0 (f_NRBRM rowf), None))
      else Some (0, None))"

definition lock_rows :: "int \<Rightarrow> int \<Rightarrow> int \<Rightarrow> conc_row list" where
  "lock_rows fis_id ctb_id par =
     (if fis_id > 0 then [\<lparr> cn_BASE = FIS, cn_ID = fis_id, cn_PAR_ID = par \<rparr>] else []) @
     (if ctb_id > 0 then [\<lparr> cn_BASE = CTB, cn_ID = ctb_id, cn_PAR_ID = par \<rparr>] else [])"

definition save_pairs_step :: "db \<Rightarrow> string \<Rightarrow> sp_state \<Rightarrow> int \<times> int \<Rightarrow> sp_state" where
  "save_pairs_step d st_conciliacao s p =
     (let fis_id = fst p; ctb_id = snd p in
      if fis_id \<le> 0 \<and> ctb_id \<le> 0 then s
      else if fis_id > 0 \<and> locked d FIS fis_id then s
      else if ctb_id > 0 \<and> locked d CTB ctb_id then s
      else case lookup_nrbrm_inc d fis_id ctb_id of
        None \<Rightarrow> s
      | Some (nrbrm, inc_ctb) \<Rightarrow>
          if fis_id > 0 \<and> locked d FIS fis_id then s
          else if ctb_id > 0 \<and> locked d CTB ctb_id then s
          else s\<lparr> depara_rows := depara_rows s @
                     [\<lparr> dp_PAR_ID = next_par_id s, dp_ST_CONCILIACAO = st_conciliacao,
                        dp_ID_FISICO = fis_id, dp_ID_CONTABIL = ctb_id,
                        dp_NRBRM = Some nrbrm, dp_INC_CONTABIL = inc_ctb \<rparr>],
                   conc_rows := conc_rows s @ lock_rows fis_id ctb_id (next_par_id s),
                   pending_fis_ids :=
                     (if fis_id > 0 then insert fis_id (pending_fis_ids s)
                      else pending_fis_ids s),
                   pending_ctb_ids :=
                     (if ctb_id > 0 then insert ctb_id (pending_ctb_ids s)
                      else pending_ctb_ids s),
                   saved := saved s + 1,
                   next_par_id := next_par_id s + 1 \<rparr>)"

fun save_pairs_loop :: "db \<Rightarrow> string \<Rightarrow> (int \<times> int) list \<Rightarrow> sp_state \<Rightarrow> sp_state" where
  "save_pairs_loop d st [] s = s"
| "save_pairs_loop d st (p # ps) s = save_pairs_loop d st ps (save_pairs_step d st s p)"

definition sp_init :: "db \<Rightarrow> sp_state" where
  "sp_init d = \<lparr> next_par_id = coalesce0 (max_par_id (depara d)) + 1, depara_rows = [],
                conc_rows = [], pending_ctb_ids = {}, pending_fis_ids = {}, saved = 0 \<rparr>"

text \<open>The two tables are written after the loop; the call returns the number saved.\<close>

definition write_rows :: "db \<Rightarrow> dp_row list \<Rightarrow> conc_row list \<Rightarrow> db" where
  "write_rows d drows crows =
     d\<lparr> depara := depara d @ drows,
        conciliados := insert_or_ignore (uq_conc_base_id d) (conciliados d) crows \<rparr>"

definition save_pairs :: "db \<Rightarrow> (int \<times> int) list \<Rightarrow> string \<Rightarrow> db \<times> int" where
  "save_pairs d pairs st_conciliacao =
     (if pairs = [] then (d, 0)
      else let s = save_pairs_loop d st_conciliacao pairs (sp_init d)
           in (write_rows d (depara_rows s) (conc_rows s), saved s))"

section \<open>Python string helpers\<close>

text \<open>
  \<^verbatim>\<open>str.upper\<close> on the code points below U+0100: the ASCII and Latin-1 lower-case letters
  move to their capitals and the sharp s becomes SS. The capitals of U+00B5 and U+00FF lie
  above U+00FF; these two are left in place, which no comparison made here can observe
  (they are neither ASCII before nor after).
\<close>

definition upper_char :: "char \<Rightarrow> string" where
  "upper_char c =
     (let n = (of_char c :: nat) in
      if (97 \<le> n \<and> n \<le> 122) \<or> (224 \<le> n \<and> n \<le> 254 \<and> n \<noteq> 247) then [char_of (n - 32)]
      else if n = 223 then ''SS''
      else [c])"

definition py_upper :: "string \<Rightarrow> string" where
  "py_upper s = concat (map upper_char s)"

text \<open>\<^verbatim>\<open>str.isspace\<close> for one character, also the class \<^verbatim>\<open>\s\<close> of \<^verbatim>\<open>re\<close>.\<close>

definition py_isspace :: "char \<Rightarrow> bool" where
  "py_isspace c =
     (let n = (of_char c :: nat) in
      (9 \<le> n \<and> n \<le> 13) \<or> (28 \<le> n \<and> n \<le> 32) \<or> n = 133 \<or> n = 160)"

definition py_strip :: "string \<Rightarrow> string" where
  "py_strip s = rev (dropWhile py_isspace (rev (dropWhile py_isspace s)))"

section \<open>Commit with family: manual_db_v2_fixed.save_pairs_with_family\<close>

definition NAO_CHAPEAVEL :: string where
  "NAO_CHAPEAVEL = ''N'' @ [char_of (195 :: nat)] @ ''O CHAPE'' @ [char_of (193 :: nat)] @ ''VEL''"

definition child_status_for_origin :: "string \<Rightarrow> string" where
  "child_status_for_origin origin =
     (let origin_norm = py_upper (py_strip origin) in
      if origin_norm = ''MANUAL'' then ''CM - INC''
      else if origin_norm = ''DIRETA'' then ''CD - INC''
      else if origin_norm = NAO_CHAPEAVEL \<or> origin_norm = ''NAO CHAPEAVEL'' then ''CN - INC''
      else origin)"

text \<open>\<open>involved\<close>: the (nrbrm, fis_id anchor) of every pair saved with an accounting side.\<close>

record spf_state = sp_state +
  involved :: "(int \<times> int) list"

definition spf_main_step ::
  "db \<Rightarrow> string \<Rightarrow> string \<Rightarrow> spf_state \<Rightarrow> int \<times> int \<Rightarrow> spf_state" where
  "spf_main_step d st_conciliacao child_status s p =
     (let fis_id = fst p; ctb_id = snd p in
      if fis_id \<le> 0 \<and> ctb_id \<le> 0 then s
      else if fis_id > 0 \<and> locked d FIS fis_id then s
      else if ctb_id > 0 \<and> (ctb_id \<in> pending_ctb_ids s \<or> locked d CTB ctb_id) then s
      else case lookup_nrbrm_inc d fis_id ctb_id of
        None \<Rightarrow> s
      | Some (nrbrm, inc_ctb) \<Rightarrow>
          s\<lparr> involved := (if ctb_id > 0 then involved s @ [(nrbrm, fis_id)] else involved s),
             depara_rows := depara_rows s @
               [\<lparr> dp_PAR_ID = next_par_id s,
                  dp_ST_CONCILIACAO =
                    (if ctb_id > 0 \<and> coalesce0 inc_ctb \<noteq> 0 then child_status
                     else st_conciliacao),
                  dp_ID_FISICO = fis_id, dp_ID_CONTABIL = ctb_id,
                  dp_NRBRM = Some nrbrm, dp_INC_CONTABIL = inc_ctb \<rparr>],
             conc_rows := conc_rows s @ lock_rows fis_id ctb_id (next_par_id s),
             pending_fis_ids :=
               (if fis_id > 0 then insert fis_id (pending_fis_ids s) else pending_fis_ids s),
             pending_ctb_ids :=
               (if ctb_id > 0 then insert ctb_id (pending_ctb_ids s) else pending_ctb_ids s),
             saved := saved s + 1,
             next_par_id := next_par_id s + 1 \<rparr>)"

fun spf_main_loop ::
  "db \<Rightarrow> string \<Rightarrow> string \<Rightarrow> (int \<times> int) list \<Rightarrow> spf_state \<Rightarrow> spf_state" where
  "spf_main_loop d st cs [] s = s"
| "spf_main_loop d st cs (p # ps) s = spf_main_loop d st cs ps (spf_main_step d st cs s p)"

text \<open>
  \<^verbatim>\<open>SELECT ID, COALESCE(INC,0) FROM contabil WHERE COALESCE(NRBRM,0)=?
  ORDER BY COALESCE(INC,0), ID\<close> (a NULL sorts first).
\<close>

definition family_rows :: "db \<Rightarrow> int \<Rightarrow> (int option \<times> int) list" where
  "family_rows d nrbrm =
     sort_key (\<lambda>x. (snd x, fst x))
       (map (\<lambda>r. (c_ID r, coalesce0 (c_INC r)))
          (filter (\<lambda>r. coalesce0 (c_NRBRM r) = nrbrm) (contabil d)))"

text \<open>
  The body of the loop over one family for a member that is neither taken in this call
  nor locked: one ledger row anchored to \<open>fis_anchor\<close>, with its lock rows.
\<close>

definition spf_attach ::
  "string \<Rightarrow> string \<Rightarrow> int \<Rightarrow> int \<Rightarrow> int \<Rightarrow> int \<Rightarrow> spf_state \<Rightarrow> spf_state" where
  "spf_attach st cs nrbrm fis_anchor ctb_id inc_val s =
     s\<lparr> depara_rows := depara_rows s @
          [\<lparr> dp_PAR_ID = next_par_id s,
             dp_ST_CONCILIACAO = (if inc_val \<noteq> 0 then cs else st),
             dp_ID_FISICO = fis_anchor, dp_ID_CONTABIL = ctb_id,
             dp_NRBRM = Some nrbrm, dp_INC_CONTABIL = Some inc_val \<rparr>],
        conc_rows := conc_rows s @
          (if fis_anchor > 0
           then [\<lparr> cn_BASE = FIS, cn_ID = fis_anchor, cn_PAR_ID = next_par_id s \<rparr>]
           else []) @
          [\<lparr> cn_BASE = CTB, cn_ID = ctb_id, cn_PAR_ID = next_par_id s \<rparr>],
        pending_fis_ids :=
          (if fis_anchor > 0 then insert fis_anchor (pending_fis_ids s)
           else pending_fis_ids s),
        pending_ctb_ids := insert ctb_id (pending_ctb_ids s),
        saved := saved s + 1,
        next_par_id := next_par_id s + 1 \<rparr>"

text \<open>The loop over one family; \<^verbatim>\<open>int(ctb_id)\<close> raises on a NULL ID.\<close>

fun spf_fam_loop ::
  "db \<Rightarrow> string \<Rightarrow> string \<Rightarrow> int \<Rightarrow> int \<Rightarrow> (int option \<times> int) list \<Rightarrow> spf_state
     \<Rightarrow> error + spf_state" where
  "spf_fam_loop d st cs nrbrm fis_anchor [] s = Inr s"
| "spf_fam_loop d st cs nrbrm fis_anchor (x # fam) s =
     (case fst x of
        None \<Rightarrow> Inl TypeError
      | Some ctb_id \<Rightarrow>
          if ctb_id \<in> pending_ctb_ids s \<or> locked d CTB ctb_id
          then spf_fam_loop d st cs nrbrm fis_anchor fam s
          else spf_fam_loop d st cs nrbrm fis_anchor fam
                 (spf_attach st cs nrbrm fis_anchor ctb_id (snd x) s))"

fun spf_prop_loop ::
  "db \<Rightarrow> string \<Rightarrow> string \<Rightarrow> (int \<times> int) list \<Rightarrow> spf_state \<Rightarrow> error + spf_state" where
  "spf_prop_loop d st cs [] s = Inr s"
| "spf_prop_loop d st cs (x # rest) s =
     (if fst x \<le> 0 then spf_prop_loop d st cs rest s
      else case spf_fam_loop d st cs (fst x) (snd x) (family_rows d (fst x)) s of
        Inl e \<Rightarrow> Inl e
      | Inr s' \<Rightarrow> spf_prop_loop d st cs rest s')"

definition spf_init :: "db \<Rightarrow> spf_state" where
  "spf_init d = \<lparr> next_par_id = coalesce0 (max_par_id (depara d)) + 1, depara_rows = [],
                 conc_rows = [], pending_ctb_ids = {}, pending_fis_ids = {}, saved = 0,
                 involved = [] \<rparr>"

text \<open>An exception rolls the transaction back and is raised again: \<open>Inl\<close>, nothing written.\<close>

definition save_pairs_with_family :: "db \<Rightarrow> (int \<times> int) list \<Rightarrow> string \<Rightarrow> error + db \<times> int" where
  "save_pairs_with_family d pairs st_conciliacao =
     (if pairs = [] then Inr (d, 0)
      else let cs = child_status_for_origin st_conciliacao;
               s = spf_main_loop d st_conciliacao cs pairs (spf_init d)
           in case spf_prop_loop d st_conciliacao cs (involved s) s of
                Inl e \<Rightarrow> Inl e
              | Inr s' \<Rightarrow> Inr (write_rows d (depara_rows s') (conc_rows s'), saved s'))"

section \<open>Properties of the commit\<close>




section \<open>Example records and databases\<close>

definition mk_fis :: "int \<Rightarrow> int \<Rightarrow> fis_row" where
  "mk_fis i n = \<lparr> f_ID = Some i, f_NRBRM = Some n, f_FRAG = None, f_DESCRICAO = None,
                  f_DESC_NORM = None, f_MODELO_NORM = None, f_SERIE_NORM = None,
                  f_TAG_NORM = None, f_SERIE = None, f_TAG = None, f_BEM_ANTERIOR = None \<rparr>"

definition mk_ctb :: "int \<Rightarrow> int \<Rightarrow> int \<Rightarrow> ctb_row" where
  "mk_ctb i n k = \<lparr> c_ID = Some i, c_NRBRM = Some n, c_INC = Some k, c_FRAG = None,
                    c_DESCRICAO = None, c_DESC_NORM = None, c_MODELO_NORM = None,
                    c_SERIE_NORM = None, c_SERIE = None, c_TAG = None, c_BEM_ANTERIOR = None \<rparr>"

definition mk_lock :: "base \<Rightarrow> int \<Rightarrow> int \<Rightarrow> conc_row" where
  "mk_lock b i p = \<lparr> cn_BASE = b, cn_ID = i, cn_PAR_ID = p \<rparr>"

definition mk_pair :: "int \<Rightarrow> string \<Rightarrow> int \<Rightarrow> int \<Rightarrow> int \<Rightarrow> int option \<Rightarrow> dp_row" where
  "mk_pair p st f c n k = \<lparr> dp_PAR_ID = p, dp_ST_CONCILIACAO = st, dp_ID_FISICO = f,
                            dp_ID_CONTABIL = c, dp_NRBRM = Some n, dp_INC_CONTABIL = k \<rparr>"

text \<open>
  Physical 1 is already committed with accounting 10 (pair 1); physical 2 and accounting 20
  are pending.
\<close>

definition db_one_locked :: db where
  "db_one_locked =
     \<lparr> fisico = [mk_fis 1 100, mk_fis 2 200],
       contabil = [mk_ctb 10 100 0, mk_ctb 20 200 0],
       depara = [mk_pair 1 ''MANUAL'' 1 10 100 (Some 0)],
       conciliados = [mk_lock FIS 1 1, mk_lock CTB 10 1],
       uq_conc_base_id = False \<rparr>"

section \<open>One family committed from an empty ledger\<close>

text \<open>
  Physical 1 and the accounting family of NRBRM 100: the parent 10 (INC 0) and the child 11
  (INC 5). Nothing is committed, and the lock table has no unique index (the SQLite schema).
\<close>

definition db_family :: db where
  "db_family =
     \<lparr> fisico = [mk_fis 1 100],
       contabil = [mk_ctb 10 100 0, mk_ctb 11 100 5],
       depara = [],
       conciliados = [],
       uq_conc_base_id = False \<rparr>"

definition family_pairs :: "dp_row list" where
  "family_pairs = [mk_pair 1 ''MANUAL'' 1 10 100 (Some 0), mk_pair 2 ''CM - INC'' 1 11 100 (Some 5)]"

definition db_family_after :: db where
  "db_family_after =
     db_family\<lparr> depara := family_pairs,
       conciliados := [mk_lock FIS 1 1, mk_lock CTB 10 1, mk_lock FIS 1 2, mk_lock CTB 11 2] \<rparr>"

definition lock_keys :: "conc_row list \<Rightarrow> (base \<times> int) list" where
  "lock_keys tbl = map (\<lambda>r. (cn_BASE r, cn_ID r)) tbl"

definition pos_ctb_ids :: "dp_row list \<Rightarrow> int list" where
  "pos_ctb_ids rows = filter (\<lambda>i. 0 < i) (map dp_ID_CONTABIL rows)"

definition pos_fis_ids :: "dp_row list \<Rightarrow> int list" where
  "pos_fis_ids rows = filter (\<lambda>i. 0 < i) (map dp_ID_FISICO rows)"

lemma spf_family_eval:
  "save_pairs_with_family db_family [(1, 10)] ''MANUAL'' = Inr (db_family_after, 2)"
  by code_simp

section \<open>The lock table after a family commit\<close>

text \<open>
  Claim C1 says that no sequence of commits leaves two rows of the lock table with the same
  (side, record id). On the schema without the unique index this fails at the first family
  commit: from an empty lock table, \<open>save_pairs_with_family\<close> on the single pair (1, 10)
  writes a lock row (FIS, 1) for the parent pair and another for the propagated child pair.
\<close>

theorem family_commit_repeats_lock_row:
  "distinct (lock_keys (conciliados db_family)) \<and>
   save_pairs_with_family db_family [(1, 10)] ''MANUAL'' = Inr (db_family_after, 2) \<and>
   lock_keys (conciliados db_family_after) = [(FIS, 1), (CTB, 10), (FIS, 1), (CTB, 11)] \<and>
   \<not> distinct (lock_keys (conciliados db_family_after))"
  using spf_family_eval
  by (simp add: lock_keys_def db_family_def db_family_after_def mk_lock_def)

section \<open>Duplicates inside one batch\<close>

text \<open>
  The loop invariant of \<open>save_pairs_with_family\<close>: every positive accounting id of a row
  built so far is in \<open>pending_ctb_ids\<close>, no such id was taken twice, and \<open>saved\<close> counts the
  rows.
\<close>

definition spf_inv :: "spf_state \<Rightarrow> bool" where
  "spf_inv s = (set (pos_ctb_ids (depara_rows s)) \<subseteq> pending_ctb_ids s \<and>
               distinct (pos_ctb_ids (depara_rows s)) \<and>
               saved s = int (length (depara_rows s)))"

lemma spf_main_step_inv: "spf_inv s \<Longrightarrow> spf_inv (spf_main_step d st cs s p)"
  by (auto simp: spf_main_step_def spf_inv_def pos_ctb_ids_def Let_def split: option.splits)

lemma spf_main_loop_inv: "spf_inv s \<Longrightarrow> spf_inv (spf_main_loop d st cs ps s)"
  by (induction ps arbitrary: s) (simp_all add: spf_main_step_inv)

text \<open>What holds before the loop over a family and is kept by each attachment holds after it.\<close>

lemma spf_fam_loop_rule:
  assumes "P s"
    and "\<And>s ctb_id inc_val. P s \<Longrightarrow> ctb_id \<notin> pending_ctb_ids s \<Longrightarrow> \<not> locked d CTB ctb_id \<Longrightarrow>
           P (spf_attach st cs n a ctb_id inc_val s)"
    and "spf_fam_loop d st cs n a fam s = Inr s'"
  shows "P s'"
  using assms(1,3)
proof (induction fam arbitrary: s)
  case Nil
  then show ?case by simp
next
  case (Cons x fam)
  show ?case
  proof (cases "fst x")
    case None
    with Cons.prems show ?thesis by simp
  next
    case (Some ctb_id)
    show ?thesis
    proof (cases "ctb_id \<in> pending_ctb_ids s \<or> locked d CTB ctb_id")
      case True
      with Cons Some show ?thesis by simp
    next
      case False
      then have "P (spf_attach st cs n a ctb_id (snd x) s)"
        using Cons.prems(1) assms(2) by blast
      moreover from False Some Cons.prems(2)
      have "spf_fam_loop d st cs n a fam (spf_attach st cs n a ctb_id (snd x) s) = Inr s'"
        by simp
      ultimately show ?thesis by (rule Cons.IH)
    qed
  qed
qed

lemma spf_attach_inv:
  "spf_inv s \<Longrightarrow> ctb_id \<notin> pending_ctb_ids s \<Longrightarrow> spf_inv (spf_attach st cs n a ctb_id inc_val s)"
  by (auto simp: spf_inv_def pos_ctb_ids_def spf_attach_def)

lemma spf_fam_loop_inv:
  "spf_inv s \<Longrightarrow> spf_fam_loop d st cs n a fam s = Inr s' \<Longrightarrow> spf_inv s'"
  by (rule spf_fam_loop_rule [where P = spf_inv]) (simp_all add: spf_attach_inv)

lemma spf_prop_loop_inv:
  "spf_inv s \<Longrightarrow> spf_prop_loop d st cs ivs s = Inr s' \<Longrightarrow> spf_inv s'"
proof (induction ivs arbitrary: s)
  case Nil
  then show ?case by simp
next
  case (Cons x ivs)
  then show ?case
    by (auto split: if_splits sum.splits dest: spf_fam_loop_inv)
qed

text \<open>
  The rows of a family repeat the physical id of their anchor pair: committing the single
  pair (1, 10) writes two ledger rows for physical 1.
\<close>

lemma family_rows_repeat_physical_id:
  "save_pairs_with_family db_family [(1, 10)] ''MANUAL'' = Inr (db_family_after, 2) \<and>
   depara db_family_after = depara db_family @ family_pairs \<and>
   pos_fis_ids family_pairs = [1, 1] \<and>
   \<not> (distinct (pos_fis_ids family_pairs) \<and> distinct (pos_ctb_ids family_pairs))"
  using spf_family_eval
  by (simp add: db_family_def db_family_after_def family_pairs_def pos_fis_ids_def mk_pair_def)

text \<open>
  \<open>save_pairs_with_family\<close> consults \<open>pending_ctb_ids\<close>: a positive accounting id taken
  earlier in the same call, by a pair of the batch or by a propagated family row, is
  rejected, so one call writes at most one ledger row for a positive accounting id, and
  the returned count is the number of rows written.
\<close>

lemma spf_one_row_per_accounting_id:
  assumes "save_pairs_with_family d pairs st = Inr (d', n)"
  shows "\<exists>rows. depara d' = depara d @ rows \<and> n = int (length rows) \<and>
           distinct (pos_ctb_ids rows)"
proof (cases "pairs = []")
  case True
  with assms show ?thesis by (simp add: save_pairs_with_family_def pos_ctb_ids_def)
next
  case False
  define cs where "cs = child_status_for_origin st"
  define s where "s = spf_main_loop d st cs pairs (spf_init d)"
  from assms False obtain s' where s': "spf_prop_loop d st cs (involved s) s = Inr s'"
    and d': "d' = write_rows d (depara_rows s') (conc_rows s')" and n: "n = saved s'"
    by (auto simp: save_pairs_with_family_def Let_def cs_def s_def split: sum.splits)
  have "spf_inv (spf_init d)" by (simp add: spf_inv_def spf_init_def pos_ctb_ids_def)
  then have "spf_inv s" unfolding s_def by (rule spf_main_loop_inv)
  then have "spf_inv s'" using s' by (rule spf_prop_loop_inv)
  then show ?thesis using d' n by (simp add: spf_inv_def write_rows_def)
qed

text \<open>
  Claim C2. A pair that repeats a record id of an earlier pair of the same batch is to be
  rejected before anything is written. \<open>save_pairs\<close> keeps the sets \<open>pending_fis_ids\<close> and
  \<open>pending_ctb_ids\<close> for this and adds to them, but never looks into them: on the batch
  that holds the pair (2, 20) twice, with physical 2 and accounting 20 pending, it writes
  two ledger rows for that pair, with two lock rows for each of the two ids, and returns 2.
\<close>

theorem save_pairs_writes_batch_duplicates:
  "save_pairs db_one_locked [(2, 20), (2, 20)] ''MANUAL'' =
     (db_one_locked\<lparr> depara := depara db_one_locked @
          [mk_pair 2 ''MANUAL'' 2 20 200 (Some 0), mk_pair 3 ''MANUAL'' 2 20 200 (Some 0)],
        conciliados := conciliados db_one_locked @
          [mk_lock FIS 2 2, mk_lock CTB 20 2, mk_lock FIS 2 3, mk_lock CTB 20 3] \<rparr>, 2)"
  by code_simp

section \<open>The unattended engine (matcher_v2_extended.py)\<close>

record MatchStats =
  ms_st :: string
  ms_candidatos_fisico :: nat
  ms_candidatos_contabil :: nat
  ms_conciliados :: nat

definition frag_conciliado :: "string option \<Rightarrow> bool" where
  "frag_conciliado v = (case v of None \<Rightarrow> False | Some x \<Rightarrow> x = ''Conciliado'')"

text \<open>
  \<open>_read_pending\<close>: the rows of a table with an ID, not flagged \<^verbatim>\<open>FRAG = 'Conciliado'\<close> and
  not in the lock table, in table order. The columns a rule asks for are projected by the
  rule.
\<close>

definition read_pending_fis :: "db \<Rightarrow> fis_row list" where
  "read_pending_fis d =
     filter (\<lambda>r. case f_ID r of None \<Rightarrow> False
                 | Some i \<Rightarrow> \<not> frag_conciliado (f_FRAG r) \<and> \<not> locked d FIS i) (fisico d)"

definition read_pending_ctb :: "db \<Rightarrow> ctb_row list" where
  "read_pending_ctb d =
     filter (\<lambda>r. case c_ID r of None \<Rightarrow> False
                 | Some i \<Rightarrow> \<not> frag_conciliado (c_FRAG r) \<and> \<not> locked d CTB i) (contabil d)"

text \<open>
  \<^verbatim>\<open>groupby(key)["ID"].rank(method="first")\<close> for the row at position \<open>i\<close> of a frame of
  (ID, key) rows: one more than the number of rows of the same key with a smaller ID, or
  with the same ID and an earlier position.
\<close>

definition rank_first :: "(int \<times> 'k) list \<Rightarrow> nat \<Rightarrow> nat" where
  "rank_first rows i =
     Suc (length (filter (\<lambda>j. snd (rows ! j) = snd (rows ! i) \<and>
                              (fst (rows ! j) < fst (rows ! i) \<or>
                               (fst (rows ! j) = fst (rows ! i) \<and> j < i)))
                    [0..<length rows]))"

text \<open>
  \<open>_pair_1to1_by_value\<close>: the inner merge on (key, rank), in the order of the left frame;
  the result rows are (ID_FISICO, ID_CONTABIL, key).
\<close>

definition pair_1to1_by_value :: "(int \<times> 'k) list \<Rightarrow> (int \<times> 'k) list \<Rightarrow> (int \<times> int \<times> 'k) list" where
  "pair_1to1_by_value df_f df_c =
     concat (map (\<lambda>i.
        map (\<lambda>j. (fst (df_f ! i), fst (df_c ! j), snd (df_f ! i)))
          (filter (\<lambda>j. snd (df_c ! j) = snd (df_f ! i) \<and> rank_first df_c j = rank_first df_f i)
             [0..<length df_c]))
       [0..<length df_f])"

text \<open>\<open>_next_par_id\<close>: \<^verbatim>\<open>int(COALESCE(MAX(PAR_ID), 0) + 1 or 1)\<close>.\<close>

definition next_par_id_of :: "db \<Rightarrow> int" where
  "next_par_id_of d = (let v = coalesce0 (max_par_id (depara d)) + 1 in if v = 0 then 1 else v)"

text \<open>
  The rows \<open>_bulk_insert_pairs\<close> builds from the pairs (ID_FISICO, ID_CONTABIL, NRBRM,
  INC_CONTABIL), numbered from \<open>par\<close>: one ledger row each, a lock row for the physical side
  when its id is positive, and always a lock row for the accounting side.
\<close>

fun bulk_rows :: "int \<Rightarrow> string \<Rightarrow> (int \<times> int \<times> int \<times> int) list \<Rightarrow> dp_row list \<times> conc_row list" where
  "bulk_rows par st [] = ([], [])"
| "bulk_rows par st ((f, c, n, k) # ps) =
     (let (drows, crows) = bulk_rows (par + 1) st ps in
      (\<lparr> dp_PAR_ID = par, dp_ST_CONCILIACAO = st, dp_ID_FISICO = f, dp_ID_CONTABIL = c,
         dp_NRBRM = Some n, dp_INC_CONTABIL = Some k \<rparr> # drows,
       (if f > 0 then [\<lparr> cn_BASE = FIS, cn_ID = f, cn_PAR_ID = par \<rparr>] else []) @
       \<lparr> cn_BASE = CTB, cn_ID = c, cn_PAR_ID = par \<rparr> # crows))"

text \<open>\<^verbatim>\<open>UPDATE t SET FRAG='Conciliado' WHERE ID IN (ids)\<close>.\<close>

definition mark_fis :: "int list \<Rightarrow> fis_row list \<Rightarrow> fis_row list" where
  "mark_fis ids rows =
     map (\<lambda>r. case f_ID r of None \<Rightarrow> r
               | Some i \<Rightarrow> if i \<in> set ids then r\<lparr> f_FRAG := Some ''Conciliado'' \<rparr> else r) rows"

definition mark_ctb :: "int list \<Rightarrow> ctb_row list \<Rightarrow> ctb_row list" where
  "mark_ctb ids rows =
     map (\<lambda>r. case c_ID r of None \<Rightarrow> r
               | Some i \<Rightarrow> if i \<in> set ids then r\<lparr> c_FRAG := Some ''Conciliado'' \<rparr> else r) rows"

definition bulk_insert_pairs :: "db \<Rightarrow> (int \<times> int \<times> int \<times> int) list \<Rightarrow> string \<Rightarrow> db \<times> nat" where
  "bulk_insert_pairs d pairs st =
     (if pairs = [] then (d, 0)
      else let (drows, crows) = bulk_rows (next_par_id_of d) st pairs;
               d1 = write_rows d drows crows;
               d2 = d1\<lparr> fisico := mark_fis (filter (\<lambda>i. i > 0) (map fst pairs)) (fisico d1),
                        contabil := mark_ctb (map (\<lambda>p. fst (snd p)) pairs) (contabil d1) \<rparr>
           in (d2, length pairs))"

text \<open>The (ID, NRBRM) columns of the rows whose NRBRM is a number (\<^verbatim>\<open>dropna\<close>).\<close>

definition fis_id_nrbrm :: "fis_row list \<Rightarrow> (int \<times> int) list" where
  "fis_id_nrbrm rows =
     concat (map (\<lambda>r. case (f_ID r, f_NRBRM r) of (Some i, Some n) \<Rightarrow> [(i, n)] | _ \<Rightarrow> []) rows)"

definition ctb_id_nrbrm :: "ctb_row list \<Rightarrow> (int \<times> int) list" where
  "ctb_id_nrbrm rows =
     concat (map (\<lambda>r. case (c_ID r, c_NRBRM r) of (Some i, Some n) \<Rightarrow> [(i, n)] | _ \<Rightarrow> []) rows)"

definition run_regra_nrbrm_pai :: "db \<Rightarrow> db \<times> MatchStats" where
  "run_regra_nrbrm_pai d =
     (let st = ''NRBEM_FIS=NRBEM_CTB'';
          pend_f = read_pending_fis d;
          pend_c = read_pending_ctb d;
          cand_f = length pend_f;
          cand_c = length pend_c;
          df_f = fis_id_nrbrm pend_f;
          df_c = ctb_id_nrbrm (filter (\<lambda>r. coalesce0 (c_INC r) = 0) pend_c)
      in if df_f = [] \<or> df_c = [] then
           (d, \<lparr> ms_st = st, ms_candidatos_fisico = cand_f, ms_candidatos_contabil = cand_c,
                 ms_conciliados = 0 \<rparr>)
         else
           let pairs = map (\<lambda>(f, c, n). (f, c, n, 0)) (pair_1to1_by_value df_f df_c);
               (d', created) = bulk_insert_pairs d pairs st
           in (d', \<lparr> ms_st = st, ms_candidatos_fisico = cand_f, ms_candidatos_contabil = cand_c,
                     ms_conciliados = created \<rparr>))"

text \<open>
  \<open>run_propagacao_incorporados\<close>: the pending accounting children (INC not 0) are merged on
  NRBRM with the ledger rows of INC_CONTABIL 0, children in the outer loop, ledger rows in
  the inner one.
\<close>

definition run_propagacao_incorporados :: "db \<Rightarrow> db \<times> MatchStats" where
  "run_propagacao_incorporados d =
     (let st = ''CA - INC'';
          df_pais = filter (\<lambda>r. coalesce0 (dp_INC_CONTABIL r) = 0) (depara d);
          cand_f = length (remdups (map dp_ID_FISICO df_pais));
          pend_c = read_pending_ctb d;
          cand_c = length pend_c;
          none = (d, \<lparr> ms_st = st, ms_candidatos_fisico = cand_f,
                       ms_candidatos_contabil = cand_c, ms_conciliados = 0 \<rparr>)
      in if df_pais = [] \<or> pend_c = [] then none
         else
           let df_filhos = concat (map (\<lambda>r. case (c_ID r, c_NRBRM r) of
                                (Some i, Some n) \<Rightarrow> [(i, n, coalesce0 (c_INC r))] | _ \<Rightarrow> [])
                             (filter (\<lambda>r. coalesce0 (c_INC r) \<noteq> 0) pend_c));
               pais = concat (map (\<lambda>r. case dp_NRBRM r of
                                Some n \<Rightarrow> [(dp_ID_FISICO r, n)] | None \<Rightarrow> []) df_pais)
           in if pais = [] \<or> df_filhos = [] then none
              else
                let m = concat (map (\<lambda>(i, n, k).
                          map (\<lambda>(f, n'). (f, i, n, k)) (filter (\<lambda>(f, n'). n' = n) pais))
                          df_filhos)
                in if m = [] then none
                   else let (d', created) = bulk_insert_pairs d m st
                        in (d', \<lparr> ms_st = st, ms_candidatos_fisico = cand_f,
                                  ms_candidatos_contabil = cand_c, ms_conciliados = created \<rparr>))"

text \<open>
  The scenario of the specification: physical P1 (NRBRM 100) and P2 (NRBRM 200) with ids 1
  and 2; accounting A1 (NRBRM 100, INC 0), A2 (NRBRM 100, INC 5), A3 (NRBRM 200, INC 0) with
  ids 1, 2, 3; nothing committed.
\<close>

definition db_scenario :: db where
  "db_scenario =
     \<lparr> fisico = [mk_fis 1 100, mk_fis 2 200],
       contabil = [mk_ctb 1 100 0, mk_ctb 2 100 5, mk_ctb 3 200 0],
       depara = [],
       conciliados = [],
       uq_conc_base_id = False \<rparr>"

definition committed_pairs :: "db \<Rightarrow> (int \<times> int) list" where
  "committed_pairs d = map (\<lambda>r. (dp_ID_FISICO r, dp_ID_CONTABIL r)) (depara d)"

definition scenario_result :: db where
  "scenario_result = fst (run_propagacao_incorporados (fst (run_regra_nrbrm_pai db_scenario)))"

lemma scenario_before_eval: "get_counts db_scenario = \<lparr> pc_fis = 2, pc_ctb = 3 \<rparr>"
  by code_simp

lemma scenario_pairs_eval: "committed_pairs scenario_result = [(1, 1), (2, 3), (1, 2)]"
  by code_simp

lemma scenario_after_eval: "get_counts scenario_result = \<lparr> pc_fis = 0, pc_ctb = 0 \<rparr>"
  by code_simp

section \<open>The scenario of the specification\<close>

text \<open>
  Claim C4, as stated: on the scenario the group-key rule followed by the propagation gives
  exactly the pairs (P1, A1) and (P1, A2) and leaves one physical and one accounting record
  pending. It does not: P2 and A3 share NRBRM 200 and A3 is a parent, so the group-key rule
  pairs them too.
\<close>

theorem scenario_not_two_pairs:
  "\<not> (set (committed_pairs scenario_result) = {(1, 1), (1, 2)} \<and>
      get_counts scenario_result = \<lparr> pc_fis = 1, pc_ctb = 1 \<rparr>)"
  by (simp add: scenario_after_eval)

text \<open>
  Claim C4, amended: on the scenario the group-key rule followed by the propagation gives
  exactly the pairs (P1, A1), (P2, A3) and (P1, A2), in this order; the pending physical
  count goes from 2 to 0 and the pending accounting count from 3 to 0.
\<close>

theorem scenario_three_pairs:
  "get_counts db_scenario = \<lparr> pc_fis = 2, pc_ctb = 3 \<rparr> \<and>
   committed_pairs scenario_result = [(1, 1), (2, 3), (1, 2)] \<and>
   get_counts scenario_result = \<lparr> pc_fis = 0, pc_ctb = 0 \<rparr>"
  by (simp add: scenario_before_eval scenario_pairs_eval scenario_after_eval)

section \<open>Ranks within a key group\<close>


definition group_of :: "(int \<times> 'k) list \<Rightarrow> 'k \<Rightarrow> nat set" where
  "group_of rows k = {j. j < length rows \<and> snd (rows ! j) = k}"

lemma finite_group_of [simp]: "finite (group_of rows k)"
  by (simp add: group_of_def)














section \<open>Locks and pending rows after a bulk insert\<close>



lemma lock_keys_append: "lock_keys (xs @ ys) = lock_keys xs @ lock_keys ys"
  by (simp add: lock_keys_def)

lemma lock_keys_Nil: "lock_keys [] = []"
  by (simp add: lock_keys_def)

















section \<open>Running the group-key rule twice\<close>




section \<open>Undo: manual_db_v2_fixed.undo_pairs\<close>









section \<open>One pair committed with its family\<close>




lemma insert_or_ignore_sub:
  "\<exists>sub. insert_or_ignore uq tbl rows = tbl @ sub \<and> set sub \<subseteq> set rows"
proof (induction rows arbitrary: tbl)
  case Nil
  show ?case by simp
next
  case (Cons r rs)
  show ?case
  proof (cases "uq \<and> (\<exists>x \<in> set tbl. cn_BASE x = cn_BASE r \<and> cn_ID x = cn_ID r)")
    case True
    then have eq: "insert_or_ignore uq tbl (r # rs) = insert_or_ignore uq tbl rs" by simp
    from Cons.IH [of tbl] obtain sub where "insert_or_ignore uq tbl rs = tbl @ sub" "set sub \<subseteq> set rs"
      by blast
    then show ?thesis unfolding eq by auto
  next
    case False
    then have eq: "insert_or_ignore uq tbl (r # rs) = insert_or_ignore uq (tbl @ [r]) rs" by auto
    from Cons.IH [of "tbl @ [r]"] obtain sub where
      "insert_or_ignore uq (tbl @ [r]) rs = (tbl @ [r]) @ sub" "set sub \<subseteq> set rs"
      by blast
    then have "insert_or_ignore uq (tbl @ [r]) rs = tbl @ (r # sub) \<and> set (r # sub) \<subseteq> set (r # rs)"
      by auto
    then show ?thesis unfolding eq by blast
  qed
qed








section \<open>The loop over one family\<close>

lemma spf_fam_loop_rule_mem:
  assumes "P s"
    and step: "\<And>s ctb_id inc_val. P s \<Longrightarrow> (Some ctb_id, inc_val) \<in> set fam \<Longrightarrow>
           ctb_id \<notin> pending_ctb_ids s \<Longrightarrow> \<not> locked d CTB ctb_id \<Longrightarrow>
           P (spf_attach st cs n a ctb_id inc_val s)"
    and "spf_fam_loop d st cs n a fam s = Inr s'"
  shows "P s'"
proof -
  have "set fam' \<subseteq> set fam \<Longrightarrow> P s \<Longrightarrow> spf_fam_loop d st cs n a fam' s = Inr s' \<Longrightarrow> P s'"
    for fam' s
  proof (induction fam' arbitrary: s)
    case Nil
    then show ?case by simp
  next
    case (Cons x fam')
    show ?case
    proof (cases "fst x")
      case None
      with Cons.prems show ?thesis by simp
    next
      case (Some ctb_id)
      show ?thesis
      proof (cases "ctb_id \<in> pending_ctb_ids s \<or> locked d CTB ctb_id")
        case True
        with Cons Some show ?thesis by simp
      next
        case False
        have "x = (Some ctb_id, snd x)" using Some by (simp add: prod_eq_iff)
        with Cons.prems(1) have "(Some ctb_id, snd x) \<in> set fam" by auto
        with False Cons.prems(2) have "P (spf_attach st cs n a ctb_id (snd x) s)"
          using step by blast
        moreover from False Some Cons.prems(3)
        have "spf_fam_loop d st cs n a fam' (spf_attach st cs n a ctb_id (snd x) s) = Inr s'"
          by simp
        moreover from Cons.prems(1) have "set fam' \<subseteq> set fam" by simp
        ultimately show ?thesis using Cons.IH by blast
      qed
    qed
  qed
  with assms(1,3) show ?thesis by blast
qed

lemma spf_fam_loop_complete:
  "spf_fam_loop d st cs n a fam s = Inr s' \<Longrightarrow>
     pending_ctb_ids s \<subseteq> pending_ctb_ids s' \<and>
     (\<forall>x \<in> set fam. \<forall>i. fst x = Some i \<longrightarrow> \<not> locked d CTB i \<longrightarrow> i \<in> pending_ctb_ids s')"
proof (induction fam arbitrary: s)
  case Nil
  then show ?case by simp
next
  case (Cons x fam)
  show ?case
  proof (cases "fst x")
    case None
    with Cons.prems show ?thesis by simp
  next
    case (Some ctb_id)
    show ?thesis
    proof (cases "ctb_id \<in> pending_ctb_ids s \<or> locked d CTB ctb_id")
      case True
      with Some Cons.prems have "spf_fam_loop d st cs n a fam s = Inr s'" by simp
      from Cons.IH [OF this] True Some show ?thesis by auto
    next
      case False
      with Some Cons.prems
      have "spf_fam_loop d st cs n a fam (spf_attach st cs n a ctb_id (snd x) s) = Inr s'"
        by simp
      from Cons.IH [OF this] Some show ?thesis by (auto simp: spf_attach_def)
    qed
  qed
qed

lemma in_family_rows:
  "x \<in> set (family_rows d n) \<longleftrightarrow>
     (\<exists>r \<in> set (contabil d). coalesce0 (c_NRBRM r) = n \<and> x = (c_ID r, coalesce0 (c_INC r)))"
  by (auto simp: family_rows_def)

text \<open>The row written for a family member reached by the propagation.\<close>

definition family_row_ok :: "db \<Rightarrow> string \<Rightarrow> int \<Rightarrow> int \<Rightarrow> dp_row \<Rightarrow> bool" where
  "family_row_ok d st f n row =
     (dp_ID_FISICO row = f \<and> dp_NRBRM row = Some n \<and> \<not> locked d CTB (dp_ID_CONTABIL row) \<and>
      (\<exists>r \<in> set (contabil d). c_ID r = Some (dp_ID_CONTABIL row) \<and> coalesce0 (c_NRBRM r) = n \<and>
         dp_INC_CONTABIL row = Some (coalesce0 (c_INC r)) \<and>
         dp_ST_CONCILIACAO row =
           (if coalesce0 (c_INC r) \<noteq> 0 then child_status_for_origin st else st)))"

section \<open>What a commit writes\<close>

definition pair_of :: "dp_row \<Rightarrow> int \<times> int" where
  "pair_of r = (dp_ID_FISICO r, dp_ID_CONTABIL r)"

text \<open>
  The pairs the loop of \<open>save_pairs\<close> does not skip: not empty, neither side in the lock
  table, and the record that gives the NRBRM exists.
\<close>

definition sp_accepts :: "db \<Rightarrow> int \<times> int \<Rightarrow> bool" where
  "sp_accepts d p =
     (\<not> (fst p \<le> 0 \<and> snd p \<le> 0) \<and> \<not> (fst p > 0 \<and> locked d FIS (fst p)) \<and>
      \<not> (snd p > 0 \<and> locked d CTB (snd p)) \<and> lookup_nrbrm_inc d (fst p) (snd p) \<noteq> None)"

text \<open>
  The pairs the first loop of \<open>save_pairs_with_family\<close> does not skip: those above whose
  accounting id was not taken by an earlier pair of the batch.
\<close>

fun spf_accepted :: "db \<Rightarrow> int set \<Rightarrow> (int \<times> int) list \<Rightarrow> (int \<times> int) list" where
  "spf_accepted d taken [] = []"
| "spf_accepted d taken (p # ps) =
     (if sp_accepts d p \<and> \<not> (snd p > 0 \<and> snd p \<in> taken)
      then p # spf_accepted d (if snd p > 0 then insert (snd p) taken else taken) ps
      else spf_accepted d taken ps)"

definition pair_locks :: "(int \<times> int) list \<Rightarrow> (base \<times> int) set" where
  "pair_locks acc = {(FIS, f) | f. f \<in> fst ` set acc \<and> 0 < f} \<union>
                    {(CTB, c) | c. c \<in> snd ` set acc \<and> 0 < c}"

definition nrbrm_of :: "db \<Rightarrow> int \<Rightarrow> int" where
  "nrbrm_of d c =
     (case find (\<lambda>r. c_ID r = Some c) (contabil d) of
        None \<Rightarrow> 0 | Some r \<Rightarrow> coalesce0 (c_NRBRM r))"

text \<open>The (NRBRM, physical id) of the saved pairs that have an accounting side, in batch order.\<close>

definition anchors_of :: "db \<Rightarrow> (int \<times> int) list \<Rightarrow> (int \<times> int) list" where
  "anchors_of d acc = map (\<lambda>p. (nrbrm_of d (snd p), fst p)) (filter (\<lambda>p. 0 < snd p) acc)"

definition pos_snd :: "(int \<times> int) list \<Rightarrow> int set" where
  "pos_snd acc = {c \<in> snd ` set acc. 0 < c}"

lemma pair_locks_Nil: "pair_locks [] = {}"
  by (simp add: pair_locks_def)

lemma pair_locks_Cons:
  "pair_locks (p # ps) = set (lock_keys (lock_rows (fst p) (snd p) par)) \<union> pair_locks ps"
  by (auto simp: pair_locks_def lock_keys_def lock_rows_def)

lemma pos_snd_Cons: "pos_snd (p # ps) = (if 0 < snd p then insert (snd p) (pos_snd ps) else pos_snd ps)"
  by (auto simp: pos_snd_def)

lemma pos_snd_Nil: "pos_snd [] = {}"
  by (simp add: pos_snd_def)

lemma anchors_of_Cons:
  "anchors_of d (p # ps) =
     (if 0 < snd p then (nrbrm_of d (snd p), fst p) # anchors_of d ps else anchors_of d ps)"
  by (simp add: anchors_of_def)

lemma anchors_of_Nil: "anchors_of d [] = []"
  by (simp add: anchors_of_def)

lemma save_pairs_step_reject:
  "\<not> sp_accepts d p \<Longrightarrow> save_pairs_step d st s p = s"
  by (auto simp: save_pairs_step_def sp_accepts_def Let_def split: option.splits)

lemma save_pairs_step_accept:
  assumes "sp_accepts d p"
  shows "\<exists>r. depara_rows (save_pairs_step d st s p) = depara_rows s @ [r] \<and> pair_of r = p \<and>
           dp_PAR_ID r = next_par_id s \<and>
           conc_rows (save_pairs_step d st s p) =
             conc_rows s @ lock_rows (fst p) (snd p) (next_par_id s) \<and>
           saved (save_pairs_step d st s p) = saved s + 1"
proof -
  from assms obtain n k where lk: "lookup_nrbrm_inc d (fst p) (snd p) = Some (n, k)"
    by (auto simp: sp_accepts_def)
  with assms show ?thesis
    by (auto simp: save_pairs_step_def sp_accepts_def Let_def pair_of_def)
qed



lemma spf_main_step_reject:
  "\<not> (sp_accepts d p \<and> \<not> (snd p > 0 \<and> snd p \<in> pending_ctb_ids s)) \<Longrightarrow>
   spf_main_step d st cs s p = s"
  by (auto simp: spf_main_step_def sp_accepts_def Let_def split: option.splits)

lemma lookup_nrbrm_of:
  "0 < c \<Longrightarrow> lookup_nrbrm_inc d f c = Some (n, k) \<Longrightarrow> n = nrbrm_of d c"
  by (auto simp: lookup_nrbrm_inc_def nrbrm_of_def split: option.splits)

lemma spf_main_step_accept:
  assumes "sp_accepts d p" "\<not> (snd p > 0 \<and> snd p \<in> pending_ctb_ids s)"
  shows "\<exists>r. depara_rows (spf_main_step d st cs s p) = depara_rows s @ [r] \<and> pair_of r = p \<and>
           dp_PAR_ID r = next_par_id s \<and>
           conc_rows (spf_main_step d st cs s p) =
             conc_rows s @ lock_rows (fst p) (snd p) (next_par_id s) \<and>
           saved (spf_main_step d st cs s p) = saved s + 1 \<and>
           involved (spf_main_step d st cs s p) = involved s @ anchors_of d [p] \<and>
           pending_ctb_ids (spf_main_step d st cs s p) = pending_ctb_ids s \<union> pos_snd [p]"
proof -
  from assms obtain n k where lk: "lookup_nrbrm_inc d (fst p) (snd p) = Some (n, k)"
    by (auto simp: sp_accepts_def)
  have n: "0 < snd p \<Longrightarrow> n = nrbrm_of d (snd p)"
    using lk by (rule lookup_nrbrm_of [rotated])
  from assms lk n show ?thesis
    by (auto simp: spf_main_step_def sp_accepts_def Let_def pair_of_def anchors_of_def
          pos_snd_def)
qed

lemma spf_main_loop_char:
  "\<exists>rows crows. depara_rows (spf_main_loop d st cs ps s) = depara_rows s @ rows \<and>
     map pair_of rows = spf_accepted d (pending_ctb_ids s) ps \<and>
     conc_rows (spf_main_loop d st cs ps s) = conc_rows s @ crows \<and>
     set (lock_keys crows) = pair_locks (spf_accepted d (pending_ctb_ids s) ps) \<and>
     saved (spf_main_loop d st cs ps s) = saved s + int (length rows) \<and>
     involved (spf_main_loop d st cs ps s) =
       involved s @ anchors_of d (spf_accepted d (pending_ctb_ids s) ps) \<and>
     pending_ctb_ids (spf_main_loop d st cs ps s) =
       pending_ctb_ids s \<union> pos_snd (spf_accepted d (pending_ctb_ids s) ps)"
proof (induction ps arbitrary: s)
  case Nil
  show ?case by (simp add: pair_locks_Nil lock_keys_Nil anchors_of_Nil pos_snd_Nil)
next
  case (Cons p ps)
  show ?case
  proof (cases "sp_accepts d p \<and> \<not> (snd p > 0 \<and> snd p \<in> pending_ctb_ids s)")
    case False
    then have "spf_main_step d st cs s p = s" by (rule spf_main_step_reject)
    moreover from False have "spf_accepted d (pending_ctb_ids s) (p # ps) =
        spf_accepted d (pending_ctb_ids s) ps" by auto
    ultimately show ?thesis using Cons.IH [of s] by simp
  next
    case True
    define s1 where "s1 = spf_main_step d st cs s p"
    from True have a: "sp_accepts d p" and b: "\<not> (snd p > 0 \<and> snd p \<in> pending_ctb_ids s)"
      by simp_all
    from spf_main_step_accept [OF a b, of st cs] obtain r where
      r: "depara_rows s1 = depara_rows s @ [r]" "pair_of r = p"
        "conc_rows s1 = conc_rows s @ lock_rows (fst p) (snd p) (next_par_id s)"
        "saved s1 = saved s + 1"
        "involved s1 = involved s @ anchors_of d [p]"
        "pending_ctb_ids s1 = pending_ctb_ids s \<union> pos_snd [p]"
      unfolding s1_def by blast
    have pe: "pending_ctb_ids s1 =
        (if snd p > 0 then insert (snd p) (pending_ctb_ids s) else pending_ctb_ids s)"
      using r(6) by (auto simp: pos_snd_def)
    define acc where "acc = spf_accepted d (pending_ctb_ids s1) ps"
    have acc: "spf_accepted d (pending_ctb_ids s) (p # ps) = p # acc"
      using True by (simp add: acc_def pe)
    from Cons.IH [of s1] obtain rows crows where
      i: "depara_rows (spf_main_loop d st cs ps s1) = depara_rows s1 @ rows"
        "map pair_of rows = acc"
        "conc_rows (spf_main_loop d st cs ps s1) = conc_rows s1 @ crows"
        "set (lock_keys crows) = pair_locks acc"
        "saved (spf_main_loop d st cs ps s1) = saved s1 + int (length rows)"
        "involved (spf_main_loop d st cs ps s1) = involved s1 @ anchors_of d acc"
        "pending_ctb_ids (spf_main_loop d st cs ps s1) = pending_ctb_ids s1 \<union> pos_snd acc"
      unfolding acc_def by blast
    have l: "spf_main_loop d st cs (p # ps) s = spf_main_loop d st cs ps s1"
      by (simp add: s1_def)
    have 1: "depara_rows (spf_main_loop d st cs (p # ps) s) = depara_rows s @ (r # rows)"
      unfolding l using i(1) r(1) by simp
    have 2: "map pair_of (r # rows) = spf_accepted d (pending_ctb_ids s) (p # ps)"
      unfolding acc using r(2) i(2) by simp
    have 3: "conc_rows (spf_main_loop d st cs (p # ps) s) =
        conc_rows s @ (lock_rows (fst p) (snd p) (next_par_id s) @ crows)"
      unfolding l using i(3) r(3) by simp
    have 4: "set (lock_keys (lock_rows (fst p) (snd p) (next_par_id s) @ crows)) =
        pair_locks (spf_accepted d (pending_ctb_ids s) (p # ps))"
      unfolding acc using i(4)
      by (simp add: lock_keys_append pair_locks_Cons [of p _ "next_par_id s"])
    have 5: "saved (spf_main_loop d st cs (p # ps) s) = saved s + int (length (r # rows))"
      unfolding l using i(5) r(4) by simp
    have 6: "involved (spf_main_loop d st cs (p # ps) s) =
        involved s @ anchors_of d (spf_accepted d (pending_ctb_ids s) (p # ps))"
      unfolding l acc using i(6) r(5) by (simp add: anchors_of_def)
    have 7: "pending_ctb_ids (spf_main_loop d st cs (p # ps) s) =
        pending_ctb_ids s \<union> pos_snd (spf_accepted d (pending_ctb_ids s) (p # ps))"
      unfolding l acc using i(7) r(6) by (auto simp: pos_snd_def)
    from 1 2 3 4 5 6 7 show ?thesis by blast
  qed
qed

lemma spf_prop_loop_rule:
  assumes "P s"
    and step: "\<And>s n a ctb_id inc_val. P s \<Longrightarrow> P (spf_attach st cs n a ctb_id inc_val s)"
    and "spf_prop_loop d st cs ivs s = Inr s'"
  shows "P s'"
  using assms(1,3)
proof (induction ivs arbitrary: s)
  case Nil
  then show ?case by simp
next
  case (Cons x ivs)
  show ?case
  proof (cases "fst x \<le> 0")
    case True
    with Cons show ?thesis by simp
  next
    case False
    with Cons.prems(2) obtain s1 where
      s1: "spf_fam_loop d st cs (fst x) (snd x) (family_rows d (fst x)) s = Inr s1"
      and rest: "spf_prop_loop d st cs ivs s1 = Inr s'"
      by (auto split: sum.splits)
    have "P s1"
      by (rule spf_fam_loop_rule [where P = P, OF Cons.prems(1) _ s1]) (rule step)
    then show ?thesis using rest by (rule Cons.IH)
  qed
qed






lemma locked_pair_not_accepted:
  assumes "(fst p > 0 \<and> locked d FIS (fst p)) \<or> (snd p > 0 \<and> locked d CTB (snd p))"
  shows "\<not> sp_accepts d p"
  using assms by (auto simp: sp_accepts_def)

lemma spf_accepted_append:
  "spf_accepted d taken (xs @ ys) =
     spf_accepted d taken xs @ spf_accepted d (taken \<union> pos_snd (spf_accepted d taken xs)) ys"
proof (induction xs arbitrary: taken)
  case Nil
  show ?case by (simp add: pos_snd_Nil)
next
  case (Cons p xs)
  show ?case
  proof (cases "sp_accepts d p \<and> \<not> (snd p > 0 \<and> snd p \<in> taken)")
    case True
    have "(if 0 < snd p then insert (snd p) taken else taken) \<union>
            pos_snd (spf_accepted d (if 0 < snd p then insert (snd p) taken else taken) xs) =
          taken \<union> pos_snd (p # spf_accepted d (if 0 < snd p then insert (snd p) taken else taken) xs)"
      by (auto simp: pos_snd_Cons)
    with True Cons.IH [of "if 0 < snd p then insert (snd p) taken else taken"]
    show ?thesis by simp
  next
    case False
    with Cons.IH [of taken] show ?thesis by auto
  qed
qed

section \<open>A locked pair is skipped alone\<close>






section \<open>Undoing a committed family\<close>

text \<open>
  Every lock row carries the PAR_ID of a ledger row. This holds when both tables are empty
  and is kept by every operation that writes them: the commits, the bulk insert of the
  automatic rules, and the undo.
\<close>

definition locks_in_ledger :: "db \<Rightarrow> bool" where
  "locks_in_ledger d =
     (\<forall>l \<in> set (conciliados d). \<exists>r \<in> set (depara d). dp_PAR_ID r = cn_PAR_ID l)"

text \<open>The same of the rows a commit is about to write.\<close>

definition rows_cover :: "dp_row list \<Rightarrow> conc_row list \<Rightarrow> bool" where
  "rows_cover drows crows = (\<forall>l \<in> set crows. \<exists>r \<in> set drows. dp_PAR_ID r = cn_PAR_ID l)"





lemma locks_in_ledger_write_rows:
  assumes "locks_in_ledger d" "rows_cover drows crows"
  shows "locks_in_ledger (write_rows d drows crows)"
proof -
  from insert_or_ignore_sub obtain sub where
    sub: "insert_or_ignore (uq_conc_base_id d) (conciliados d) crows = conciliados d @ sub"
      "set sub \<subseteq> set crows"
    by blast
  show ?thesis
    unfolding locks_in_ledger_def
  proof
    fix l assume "l \<in> set (conciliados (write_rows d drows crows))"
    then consider "l \<in> set (conciliados d)" | "l \<in> set crows"
      using sub by (auto simp: write_rows_def)
    then show "\<exists>r \<in> set (depara (write_rows d drows crows)). dp_PAR_ID r = cn_PAR_ID l"
    proof cases
      case 1
      with assms(1) obtain r where "r \<in> set (depara d)" "dp_PAR_ID r = cn_PAR_ID l"
        unfolding locks_in_ledger_def by blast
      then show ?thesis by (auto simp: write_rows_def)
    next
      case 2
      with assms(2) obtain r where "r \<in> set drows" "dp_PAR_ID r = cn_PAR_ID l"
        unfolding rows_cover_def by blast
      then show ?thesis by (auto simp: write_rows_def)
    qed
  qed
qed

lemma rows_cover_append:
  assumes "rows_cover drows crows" "\<forall>l \<in> set cs. cn_PAR_ID l = dp_PAR_ID r"
  shows "rows_cover (drows @ [r]) (crows @ cs)"
  using assms unfolding rows_cover_def by auto

lemma lock_rows_par: "\<forall>l \<in> set (lock_rows f c par). cn_PAR_ID l = par"
  by (auto simp: lock_rows_def)

lemma save_pairs_step_cover:
  assumes "rows_cover (depara_rows s) (conc_rows s)"
  shows "rows_cover (depara_rows (save_pairs_step d st s p)) (conc_rows (save_pairs_step d st s p))"
proof (cases "sp_accepts d p")
  case False
  then have "save_pairs_step d st s p = s" by (rule save_pairs_step_reject)
  with assms show ?thesis by simp
next
  case True
  from save_pairs_step_accept [OF True, of st s] obtain r where
    r: "depara_rows (save_pairs_step d st s p) = depara_rows s @ [r]"
      "conc_rows (save_pairs_step d st s p) =
         conc_rows s @ lock_rows (fst p) (snd p) (next_par_id s)"
      "dp_PAR_ID r = next_par_id s"
    by blast
  from rows_cover_append [OF assms, of "lock_rows (fst p) (snd p) (next_par_id s)" r]
    lock_rows_par [of "fst p" "snd p" "next_par_id s"] r(3)
  show ?thesis unfolding r(1,2) by simp
qed

lemma save_pairs_loop_cover:
  "rows_cover (depara_rows s) (conc_rows s) \<Longrightarrow>
   rows_cover (depara_rows (save_pairs_loop d st ps s)) (conc_rows (save_pairs_loop d st ps s))"
  by (induction ps arbitrary: s) (simp_all add: save_pairs_step_cover)

lemma locks_in_ledger_save_pairs:
  assumes "locks_in_ledger d"
  shows "locks_in_ledger (fst (save_pairs d pairs st))"
proof (cases "pairs = []")
  case True
  with assms show ?thesis by (simp add: save_pairs_def)
next
  case False
  have "rows_cover (depara_rows (sp_init d)) (conc_rows (sp_init d))"
    by (simp add: rows_cover_def sp_init_def)
  from save_pairs_loop_cover [OF this] locks_in_ledger_write_rows [OF assms] False
  show ?thesis by (simp add: save_pairs_def Let_def)
qed

lemma spf_main_step_cover:
  assumes "rows_cover (depara_rows s) (conc_rows s)"
  shows "rows_cover (depara_rows (spf_main_step d st cs s p))
           (conc_rows (spf_main_step d st cs s p))"
proof (cases "sp_accepts d p \<and> \<not> (snd p > 0 \<and> snd p \<in> pending_ctb_ids s)")
  case False
  then have "spf_main_step d st cs s p = s" by (rule spf_main_step_reject)
  with assms show ?thesis by simp
next
  case True
  then have a: "sp_accepts d p" and b: "\<not> (snd p > 0 \<and> snd p \<in> pending_ctb_ids s)"
    by simp_all
  from spf_main_step_accept [OF a b, of st cs] obtain r where
    r: "depara_rows (spf_main_step d st cs s p) = depara_rows s @ [r]"
      "conc_rows (spf_main_step d st cs s p) =
         conc_rows s @ lock_rows (fst p) (snd p) (next_par_id s)"
      "dp_PAR_ID r = next_par_id s"
    by blast
  from rows_cover_append [OF assms, of "lock_rows (fst p) (snd p) (next_par_id s)" r]
    lock_rows_par [of "fst p" "snd p" "next_par_id s"] r(3)
  show ?thesis unfolding r(1,2) by simp
qed

lemma spf_main_loop_cover:
  "rows_cover (depara_rows s) (conc_rows s) \<Longrightarrow>
   rows_cover (depara_rows (spf_main_loop d st cs ps s)) (conc_rows (spf_main_loop d st cs ps s))"
  by (induction ps arbitrary: s) (simp_all add: spf_main_step_cover)

lemma spf_attach_cover:
  assumes "rows_cover (depara_rows s) (conc_rows s)"
  shows "rows_cover (depara_rows (spf_attach st cs n a ctb_id inc_val s))
           (conc_rows (spf_attach st cs n a ctb_id inc_val s))"
  using assms unfolding rows_cover_def spf_attach_def by auto

lemma locks_in_ledger_save_pairs_with_family:
  assumes "locks_in_ledger d" "save_pairs_with_family d pairs st = Inr (d', k)"
  shows "locks_in_ledger d'"
proof (cases "pairs = []")
  case True
  with assms show ?thesis by (simp add: save_pairs_with_family_def)
next
  case False
  define cs where "cs = child_status_for_origin st"
  define s where "s = spf_main_loop d st cs pairs (spf_init d)"
  from assms(2) False obtain s' where s': "spf_prop_loop d st cs (involved s) s = Inr s'"
    and d': "d' = write_rows d (depara_rows s') (conc_rows s')"
    by (auto simp: save_pairs_with_family_def Let_def cs_def s_def split: sum.splits)
  have "rows_cover (depara_rows (spf_init d)) (conc_rows (spf_init d))"
    by (simp add: rows_cover_def spf_init_def)
  then have "rows_cover (depara_rows s) (conc_rows s)"
    unfolding s_def by (rule spf_main_loop_cover)
  then have "rows_cover (depara_rows s') (conc_rows s')"
    by (rule spf_prop_loop_rule [where P = "\<lambda>t. rows_cover (depara_rows t) (conc_rows t)", OF _ _ s'])
       (rule spf_attach_cover)
  with assms(1) show ?thesis unfolding d' by (rule locks_in_ledger_write_rows)
qed

















section \<open>The family attached to the saved pairs\<close>

text \<open>
  The invariant of the propagation. \<open>s0\<close> is the state after the loop over the pairs,
  \<open>ivs\<close> its list \<open>involved\<close>, \<open>seen\<close> the positive NRBRMs whose family has been walked.
  The rows added so far are rows of family members that the batch had not taken, each
  anchored to the first physical id that \<open>ivs\<close> gives for its NRBRM, no accounting id twice;
  every unlocked member of a family already walked is taken.
\<close>

definition prop_inv ::
  "db \<Rightarrow> string \<Rightarrow> (int \<times> int) list \<Rightarrow> spf_state \<Rightarrow> int set \<Rightarrow> spf_state \<Rightarrow> bool" where
  "prop_inv d st ivs s0 seen s =
     (\<exists>fam. depara_rows s = depara_rows s0 @ fam \<and>
        pending_ctb_ids s = pending_ctb_ids s0 \<union> dp_ID_CONTABIL ` set fam \<and>
        distinct (map dp_ID_CONTABIL fam) \<and>
        (\<forall>row \<in> set fam. dp_ID_CONTABIL row \<notin> pending_ctb_ids s0 \<and>
           (\<exists>n f. 0 < n \<and> map_of ivs n = Some f \<and> family_row_ok d st f n row)) \<and>
        (\<forall>n \<in> seen. \<forall>x \<in> set (family_rows d n). \<forall>i. fst x = Some i \<longrightarrow>
           \<not> locked d CTB i \<longrightarrow> i \<in> pending_ctb_ids s))"

lemma spf_attach_prop_inv:
  assumes inv: "prop_inv d st ivs s0 seen s"
    and mem: "(Some ctb_id, inc_val) \<in> set (family_rows d n)"
    and new: "ctb_id \<notin> pending_ctb_ids s" and ul: "\<not> locked d CTB ctb_id"
    and n: "0 < n" and anchor: "map_of ivs n = Some f"
  shows "prop_inv d st ivs s0 seen (spf_attach st (child_status_for_origin st) n f ctb_id inc_val s)"
proof -
  let ?s = "spf_attach st (child_status_for_origin st) n f ctb_id inc_val s"
  from inv obtain fam where r: "depara_rows s = depara_rows s0 @ fam"
    "pending_ctb_ids s = pending_ctb_ids s0 \<union> dp_ID_CONTABIL ` set fam"
    "distinct (map dp_ID_CONTABIL fam)"
    "\<forall>row \<in> set fam. dp_ID_CONTABIL row \<notin> pending_ctb_ids s0 \<and>
           (\<exists>n f. 0 < n \<and> map_of ivs n = Some f \<and> family_row_ok d st f n row)"
    "\<forall>n \<in> seen. \<forall>x \<in> set (family_rows d n). \<forall>i. fst x = Some i \<longrightarrow>
           \<not> locked d CTB i \<longrightarrow> i \<in> pending_ctb_ids s"
    unfolding prop_inv_def by blast
  let ?row = "\<lparr> dp_PAR_ID = next_par_id s,
             dp_ST_CONCILIACAO = (if inc_val \<noteq> 0 then child_status_for_origin st else st),
             dp_ID_FISICO = f, dp_ID_CONTABIL = ctb_id,
             dp_NRBRM = Some n, dp_INC_CONTABIL = Some inc_val \<rparr>"
  from mem obtain cr where cr: "cr \<in> set (contabil d)" "coalesce0 (c_NRBRM cr) = n"
    "c_ID cr = Some ctb_id" "coalesce0 (c_INC cr) = inc_val"
    unfolding in_family_rows by auto
  have ok: "family_row_ok d st f n ?row"
    unfolding family_row_ok_def using ul cr by auto
  have 1: "depara_rows ?s = depara_rows s0 @ (fam @ [?row])"
    by (simp add: spf_attach_def r(1))
  have 2: "pending_ctb_ids ?s = pending_ctb_ids s0 \<union> dp_ID_CONTABIL ` set (fam @ [?row])"
    by (auto simp: spf_attach_def r(2))
  have 3: "distinct (map dp_ID_CONTABIL (fam @ [?row]))"
    using r(2,3) new by auto
  have 4: "\<forall>row \<in> set (fam @ [?row]). dp_ID_CONTABIL row \<notin> pending_ctb_ids s0 \<and>
           (\<exists>n f. 0 < n \<and> map_of ivs n = Some f \<and> family_row_ok d st f n row)"
  proof
    fix row assume "row \<in> set (fam @ [?row])"
    then consider "row \<in> set fam" | "row = ?row" by auto
    then show "dp_ID_CONTABIL row \<notin> pending_ctb_ids s0 \<and>
           (\<exists>n f. 0 < n \<and> map_of ivs n = Some f \<and> family_row_ok d st f n row)"
    proof cases
      case 1
      with r(4) show ?thesis by blast
    next
      case 2
      have "dp_ID_CONTABIL ?row \<notin> pending_ctb_ids s0" using new r(2) by simp
      moreover have "\<exists>n f. 0 < n \<and> map_of ivs n = Some f \<and> family_row_ok d st f n ?row"
        using n anchor ok by blast
      ultimately show ?thesis unfolding 2 by blast
    qed
  qed
  have 5: "\<forall>n \<in> seen. \<forall>x \<in> set (family_rows d n). \<forall>i. fst x = Some i \<longrightarrow>
           \<not> locked d CTB i \<longrightarrow> i \<in> pending_ctb_ids ?s"
    using r(5) by (simp add: spf_attach_def)
  show ?thesis
    unfolding prop_inv_def by (intro exI [of _ "fam @ [?row]"] conjI 1 2 3 4 5)
qed

lemma map_of_first:
  "n \<notin> fst ` set pre \<Longrightarrow> map_of (pre @ (n, f) # rest) n = Some f"
  by (simp add: map_add_def map_of_eq_None_iff [THEN iffD2])

lemma spf_prop_loop_prop_inv:
  assumes "prop_inv d st (pre @ rest) s0 {n \<in> fst ` set pre. 0 < n} s"
    and "spf_prop_loop d st (child_status_for_origin st) rest s = Inr s'"
  shows "prop_inv d st (pre @ rest) s0 {n \<in> fst ` set (pre @ rest). 0 < n} s'"
  using assms
proof (induction rest arbitrary: pre s)
  case Nil
  then show ?case by simp
next
  case (Cons x rest)
  obtain n f where x: "x = (n, f)" by (cases x)
  have app: "pre @ x # rest = (pre @ [x]) @ rest" by simp
  show ?case
  proof (cases "n \<le> 0")
    case True
    then have same: "{m \<in> fst ` set (pre @ [x]). 0 < m} = {m \<in> fst ` set pre. 0 < m}"
      by (auto simp: x)
    from True Cons.prems(2) have l: "spf_prop_loop d st (child_status_for_origin st) rest s = Inr s'"
      by (simp add: x)
    from Cons.prems(1) have "prop_inv d st ((pre @ [x]) @ rest) s0 {m \<in> fst ` set (pre @ [x]). 0 < m} s"
      unfolding same by simp
    from Cons.IH [OF this l] show ?thesis by simp
  next
    case False
    then have n: "0 < n" by simp
    let ?seen = "{m \<in> fst ` set pre. 0 < m}"
    from False Cons.prems(2) obtain s1 where
      s1: "spf_fam_loop d st (child_status_for_origin st) n f (family_rows d n) s = Inr s1"
      and l: "spf_prop_loop d st (child_status_for_origin st) rest s1 = Inr s'"
      by (auto simp: x split: sum.splits)
    have P1: "prop_inv d st (pre @ x # rest) s0 ?seen s1"
    proof (rule spf_fam_loop_rule_mem [where P = "prop_inv d st (pre @ x # rest) s0 ?seen",
          OF Cons.prems(1) _ s1])
      fix t :: spf_state and ctb_id inc_val
      assume t: "prop_inv d st (pre @ x # rest) s0 ?seen t"
        and mem: "(Some ctb_id, inc_val) \<in> set (family_rows d n)"
        and new: "ctb_id \<notin> pending_ctb_ids t" and ul: "\<not> locked d CTB ctb_id"
      have "n \<notin> ?seen"
      proof
        assume "n \<in> ?seen"
        with t mem ul have "ctb_id \<in> pending_ctb_ids t"
          unfolding prop_inv_def by force
        with new show False by simp
      qed
      with n have "n \<notin> fst ` set pre" by simp
      then have "map_of (pre @ x # rest) n = Some f" unfolding x by (rule map_of_first)
      with t mem new ul n
      show "prop_inv d st (pre @ x # rest) s0 ?seen
              (spf_attach st (child_status_for_origin st) n f ctb_id inc_val t)"
        by (rule spf_attach_prop_inv)
    qed
    have seen': "{m \<in> fst ` set (pre @ [x]). 0 < m} = insert n ?seen"
      using n by (auto simp: x)
    from spf_fam_loop_complete [OF s1]
    have comp: "\<forall>y \<in> set (family_rows d n). \<forall>i. fst y = Some i \<longrightarrow> \<not> locked d CTB i \<longrightarrow>
        i \<in> pending_ctb_ids s1"
      by blast
    have "prop_inv d st ((pre @ [x]) @ rest) s0 {m \<in> fst ` set (pre @ [x]). 0 < m} s1"
      using P1 comp unfolding seen' prop_inv_def app [symmetric] by auto
    from Cons.IH [OF this l] show ?thesis by simp
  qed
qed

text \<open>
  Two families and their physical records, all pending: NRBRM 100 with the parent 10 and
  the child 11, NRBRM 200 with the parent 20 and the child 21.
\<close>

definition db_two_families :: db where
  "db_two_families =
     \<lparr> fisico = [mk_fis 1 100, mk_fis 2 200],
       contabil = [mk_ctb 10 100 0, mk_ctb 11 100 5, mk_ctb 20 200 0, mk_ctb 21 200 3],
       depara = [], conciliados = [], uq_conc_base_id = False \<rparr>"

definition db_two_families_after :: db where
  "db_two_families_after =
     db_two_families\<lparr> depara :=
         [mk_pair 1 ''MANUAL'' 1 10 100 (Some 0), mk_pair 2 ''CM - INC'' 2 21 200 (Some 3),
          mk_pair 3 ''CM - INC'' 1 11 100 (Some 5), mk_pair 4 ''MANUAL'' 2 20 200 (Some 0)],
       conciliados :=
         [mk_lock FIS 1 1, mk_lock CTB 10 1, mk_lock FIS 2 2, mk_lock CTB 21 2,
          mk_lock FIS 1 3, mk_lock CTB 11 3, mk_lock FIS 2 4, mk_lock CTB 20 4] \<rparr>"

lemma db_two_families_eval:
  "save_pairs_with_family db_two_families [(1, 10), (2, 21)] ''MANUAL'' =
     Inr (db_two_families_after, 4)"
  "spf_accepted db_two_families {} [(1, 10), (2, 21)] = [(1, 10), (2, 21)]"
  "anchors_of db_two_families [(1, 10), (2, 21)] = [(100, 1), (200, 2)]"
  by code_simp+

definition db_siblings :: db where
  "db_siblings =
     \<lparr> fisico = [mk_fis 1 100, mk_fis 2 100],
       contabil = [mk_ctb 10 100 0, mk_ctb 11 100 1, mk_ctb 12 100 2],
       depara = [],
       conciliados = [],
       uq_conc_base_id = False \<rparr>"

definition db_siblings_after :: db where
  "db_siblings_after =
     db_siblings\<lparr> depara :=
         [mk_pair 1 ''MANUAL'' 1 10 100 (Some 0), mk_pair 2 ''CM - INC'' 2 11 100 (Some 1),
          mk_pair 3 ''CM - INC'' 1 12 100 (Some 2)],
       conciliados :=
         [mk_lock FIS 1 1, mk_lock CTB 10 1, mk_lock FIS 2 2, mk_lock CTB 11 2,
          mk_lock FIS 1 3, mk_lock CTB 12 3] \<rparr>"

lemma db_siblings_commit_eval:
  "save_pairs_with_family db_siblings [(1, 10), (2, 11)] ''MANUAL'' = Inr (db_siblings_after, 3)"
  by code_simp

text \<open>
  Claim C10, as stated, for every pair saved in a batch: the other unlocked accounting
  records of its NRBRM are inserted anchored to the physical id of that pair. In a batch
  with two pairs of one family this fails for the second pair: saving (1, 10) and (2, 11),
  both of NRBRM 100, attaches the remaining member 12 to physical 1, the anchor of the
  first pair, and not to physical 2.
\<close>

theorem second_pair_family_on_first_anchor:
  "save_pairs_with_family db_siblings [(1, 10), (2, 11)] ''MANUAL'' = Inr (db_siblings_after, 3) \<and>
   \<not> locked db_siblings CTB 12 \<and>
   committed_pairs db_siblings_after = [(1, 10), (2, 11), (1, 12)] \<and>
   (2, 12) \<notin> set (committed_pairs db_siblings_after)"
  using db_siblings_commit_eval
  by (simp add: committed_pairs_def db_siblings_after_def db_siblings_def mk_pair_def locked_def)

text \<open>
  Claim C10, amended. Let \<open>save_pairs_with_family\<close> return on a batch. The ledger receives
  the rows of the saved pairs of the batch (\<open>main\<close>), then the rows of the propagation
  (\<open>fam\<close>). For every saved pair whose accounting record has a positive NRBRM, every other
  accounting id of that NRBRM that is not locked and is not itself saved by the batch has
  exactly one row in \<open>fam\<close>, the parent too when the record of the pair is a child. Each
  row of \<open>fam\<close> is anchored to the physical id of the first saved pair of the batch whose
  accounting record has its NRBRM, and so to the physical id of the pair of its own family
  when the saved pairs are of different families; it carries that NRBRM and the INC of its
  record and is tagged with the derived child status when that INC is not 0, with the main
  status when it is 0.
\<close>

theorem family_attached_to_first_saved_pair:
  assumes commit: "save_pairs_with_family d pairs st = Inr (d', k)"
  shows "\<exists>main fam.
     depara d' = depara d @ main @ fam \<and>
     map pair_of main = spf_accepted d {} pairs \<and>
     distinct (map dp_ID_CONTABIL fam) \<and>
     (\<forall>row \<in> set fam. dp_ID_CONTABIL row \<notin> pos_snd (spf_accepted d {} pairs) \<and>
        (\<exists>n f. 0 < n \<and> map_of (anchors_of d (spf_accepted d {} pairs)) n = Some f \<and>
           family_row_ok d st f n row)) \<and>
     (\<forall>p \<in> set (spf_accepted d {} pairs). 0 < snd p \<and> 0 < nrbrm_of d (snd p) \<longrightarrow>
        (\<forall>r \<in> set (contabil d). \<forall>i. coalesce0 (c_NRBRM r) = nrbrm_of d (snd p) \<and>
           c_ID r = Some i \<and> \<not> locked d CTB i \<and> i \<notin> pos_snd (spf_accepted d {} pairs) \<longrightarrow>
           i \<in> dp_ID_CONTABIL ` set fam)) \<and>
     (distinct (map fst (anchors_of d (spf_accepted d {} pairs))) \<longrightarrow>
        (\<forall>p \<in> set (spf_accepted d {} pairs). 0 < snd p \<longrightarrow>
           map_of (anchors_of d (spf_accepted d {} pairs)) (nrbrm_of d (snd p)) = Some (fst p)))"
proof -
  define acc where "acc = spf_accepted d {} pairs"
  define cs where "cs = child_status_for_origin st"
  define s where "s = spf_main_loop d st cs pairs (spf_init d)"
  from spf_main_loop_char [of d st cs pairs "spf_init d"] obtain main where
    m: "depara_rows s = main" "map pair_of main = acc" "involved s = anchors_of d acc"
      "pending_ctb_ids s = pos_snd acc"
    unfolding s_def acc_def by (auto simp: spf_init_def)
  have own: "distinct (map fst (anchors_of d acc)) \<longrightarrow>
        (\<forall>p \<in> set acc. 0 < snd p \<longrightarrow> map_of (anchors_of d acc) (nrbrm_of d (snd p)) = Some (fst p))"
  proof (intro impI ballI)
    fix p assume di: "distinct (map fst (anchors_of d acc))" and p: "p \<in> set acc" "0 < snd p"
    then have "(nrbrm_of d (snd p), fst p) \<in> set (anchors_of d acc)"
      by (auto simp: anchors_of_def)
    with di show "map_of (anchors_of d acc) (nrbrm_of d (snd p)) = Some (fst p)"
      by (rule map_of_is_SomeI)
  qed
  show ?thesis
  proof (cases "pairs = []")
    case True
    with commit have "d' = d" by (simp add: save_pairs_with_family_def)
    moreover from True have "acc = []" by (simp add: acc_def)
    ultimately show ?thesis
      unfolding acc_def [symmetric]
      by (intro exI [of _ "[]"]) (simp add: pos_snd_Nil anchors_of_Nil)
  next
    case False
    from commit False obtain s' where s': "spf_prop_loop d st cs (involved s) s = Inr s'"
      and d': "d' = write_rows d (depara_rows s') (conc_rows s')"
      by (auto simp: save_pairs_with_family_def Let_def cs_def s_def split: sum.splits)
    have "prop_inv d st ([] @ involved s) s {n \<in> fst ` set []. 0 < n} s"
      unfolding prop_inv_def by (intro exI [of _ "[]"]) simp
    from spf_prop_loop_prop_inv [OF this s' [unfolded cs_def]]
    have "prop_inv d st (involved s) s {n \<in> fst ` set (involved s). 0 < n} s'" by simp
    then obtain fam where f: "depara_rows s' = depara_rows s @ fam"
      "pending_ctb_ids s' = pending_ctb_ids s \<union> dp_ID_CONTABIL ` set fam"
      "distinct (map dp_ID_CONTABIL fam)"
      "\<forall>row \<in> set fam. dp_ID_CONTABIL row \<notin> pending_ctb_ids s \<and>
           (\<exists>n f. 0 < n \<and> map_of (involved s) n = Some f \<and> family_row_ok d st f n row)"
      "\<forall>n \<in> {n \<in> fst ` set (involved s). 0 < n}. \<forall>x \<in> set (family_rows d n). \<forall>i.
           fst x = Some i \<longrightarrow> \<not> locked d CTB i \<longrightarrow> i \<in> pending_ctb_ids s'"
      unfolding prop_inv_def by blast
    have A: "depara d' = depara d @ main @ fam"
      by (simp add: d' write_rows_def f(1) m(1))
    have B: "\<forall>row \<in> set fam. dp_ID_CONTABIL row \<notin> pos_snd acc \<and>
        (\<exists>n f. 0 < n \<and> map_of (anchors_of d acc) n = Some f \<and> family_row_ok d st f n row)"
      using f(4) unfolding m(3,4) .
    have C: "\<forall>p \<in> set acc. 0 < snd p \<and> 0 < nrbrm_of d (snd p) \<longrightarrow>
        (\<forall>r \<in> set (contabil d). \<forall>i. coalesce0 (c_NRBRM r) = nrbrm_of d (snd p) \<and>
           c_ID r = Some i \<and> \<not> locked d CTB i \<and> i \<notin> pos_snd acc \<longrightarrow>
           i \<in> dp_ID_CONTABIL ` set fam)"
    proof (intro ballI impI allI)
      fix p r i
      assume p: "p \<in> set acc" and pp: "0 < snd p \<and> 0 < nrbrm_of d (snd p)"
        and r: "r \<in> set (contabil d)"
        and h: "coalesce0 (c_NRBRM r) = nrbrm_of d (snd p) \<and> c_ID r = Some i \<and>
                \<not> locked d CTB i \<and> i \<notin> pos_snd acc"
      from p pp have "(nrbrm_of d (snd p), fst p) \<in> set (involved s)"
        unfolding m(3) by (auto simp: anchors_of_def)
      then have "nrbrm_of d (snd p) \<in> fst ` set (involved s)" by force
      with pp have seen: "nrbrm_of d (snd p) \<in> {n \<in> fst ` set (involved s). 0 < n}" by simp
      from r h have "(Some i, coalesce0 (c_INC r)) \<in> set (family_rows d (nrbrm_of d (snd p)))"
        unfolding in_family_rows by force
      with f(5) seen h have "i \<in> pending_ctb_ids s'" by force
      with f(2) h show "i \<in> dp_ID_CONTABIL ` set fam" unfolding m(4) by blast
    qed
    show ?thesis
      unfolding acc_def [symmetric]
      by (intro exI [of _ main] exI [of _ fam] conjI A m(2) f(3) B C own)
  qed
qed

theorem family_attached_to_first_saved_pair_witness:
  "save_pairs_with_family db_two_families [(1, 10), (2, 21)] ''MANUAL'' =
     Inr (db_two_families_after, 4) \<and>
   (\<exists>main fam. depara db_two_families_after = depara db_two_families @ main @ fam \<and>
      map pair_of main = [(1, 10), (2, 21)] \<and> distinct (map dp_ID_CONTABIL fam) \<and>
      11 \<in> dp_ID_CONTABIL ` set fam \<and> 20 \<in> dp_ID_CONTABIL ` set fam) \<and>
   committed_pairs db_two_families_after = [(1, 10), (2, 21), (1, 11), (2, 20)]"
proof -
  note T = family_attached_to_first_saved_pair [OF db_two_families_eval(1)]
  have ex: "\<exists>main fam. depara db_two_families_after = depara db_two_families @ main @ fam \<and>
      map pair_of main = [(1, 10), (2, 21)] \<and> distinct (map dp_ID_CONTABIL fam) \<and>
      11 \<in> dp_ID_CONTABIL ` set fam \<and> 20 \<in> dp_ID_CONTABIL ` set fam"
    by (intro exI [of _ "[mk_pair 1 ''MANUAL'' 1 10 100 (Some 0), mk_pair 2 ''CM - INC'' 2 21 200 (Some 3)]"]
          exI [of _ "[mk_pair 3 ''CM - INC'' 1 11 100 (Some 5), mk_pair 4 ''MANUAL'' 2 20 200 (Some 0)]"])
       (simp add: db_two_families_after_def db_two_families_def pair_of_def mk_pair_def)
  have cp: "committed_pairs db_two_families_after = [(1, 10), (2, 21), (1, 11), (2, 20)]"
    by (simp add: committed_pairs_def db_two_families_after_def mk_pair_def)
  from T ex cp db_two_families_eval(1) show ?thesis by simp
qed

section \<open>Assisted rules 1 to 5: containment by LIKE (load_candidates_auto02)\<close>

text \<open>
  The comparison of SQLite's \<^verbatim>\<open>LIKE\<close> for one character: upper and lower case ASCII letters
  are equal, every other character only to itself.
\<close>

definition ascii_fold :: "char \<Rightarrow> char" where
  "ascii_fold c =
     (let n = (of_char c :: nat) in if 97 \<le> n \<and> n \<le> 122 then char_of (n - 32) else c)"

text \<open>
  \<^verbatim>\<open>text LIKE pattern\<close> without ESCAPE: \<^verbatim>\<open>%\<close> stands for any run of characters, \<^verbatim>\<open>_\<close> for
  any one character. The strings are taken to hold no NUL character.
\<close>

fun like_match :: "string \<Rightarrow> string \<Rightarrow> bool" where
  "like_match [] [] = True"
| "like_match [] (c # cs) = False"
| "like_match (p # ps) [] = (p = CHR ''%'' \<and> like_match ps [])"
| "like_match (p # ps) (c # cs) =
     (if p = CHR ''%'' then like_match ps (c # cs) \<or> like_match (p # ps) cs
      else (p = CHR ''_'' \<or> ascii_fold p = ascii_fold c) \<and> like_match ps cs)"

text \<open>\<^verbatim>\<open>LENGTH(x) >= 4 AND d LIKE ('%' || x || '%')\<close>, false when a side is NULL.\<close>

definition len4_contained :: "string option \<Rightarrow> string option \<Rightarrow> bool" where
  "len4_contained x d =
     (case (x, d) of
        (Some xs, Some ds) \<Rightarrow> 4 \<le> length xs \<and> like_match (CHR ''%'' # xs @ ''%'') ds
      | _ \<Rightarrow> False)"

definition join_cond :: "string \<Rightarrow> fis_row \<Rightarrow> ctb_row \<Rightarrow> bool" where
  "join_cond rid f t =
     (if rid = ''1'' then len4_contained (f_SERIE_NORM f) (c_DESC_NORM t)
      else if rid = ''2'' then len4_contained (c_SERIE_NORM t) (f_DESC_NORM f)
      else if rid = ''3'' then
        (case (f_MODELO_NORM f, c_MODELO_NORM t) of
           (Some fm, Some tm) \<Rightarrow> tm \<noteq> [] \<and> fm = tm
         | _ \<Rightarrow> False)
      else if rid = ''4'' then len4_contained (f_MODELO_NORM f) (c_DESC_NORM t)
      else len4_contained (f_TAG_NORM f) (c_DESC_NORM t))"

text \<open>
  The join of \<^verbatim>\<open>base_sql\<close> with no filter set: the pairs of a pending physical row and a
  pending accounting parent that satisfy the rule's condition.
\<close>

definition auto02_join :: "db \<Rightarrow> string \<Rightarrow> (fis_row \<times> ctb_row) list" where
  "auto02_join d rid =
     concat (map (\<lambda>f. map (\<lambda>t. (f, t))
       (filter (\<lambda>t. join_cond rid f t \<and>
                    (case (f_ID f, c_ID t) of
                       (Some i, Some j) \<Rightarrow> \<not> locked d FIS i \<and> \<not> locked d CTB j
                     | _ \<Rightarrow> False) \<and>
                    coalesce0 (c_INC t) = 0) (contabil d))) (fisico d))"

text \<open>\<open>contains x d\<close>: the string \<open>x\<close> occurs in \<open>d\<close> as a run of consecutive characters.\<close>

fun starts_with :: "string \<Rightarrow> string \<Rightarrow> bool" where
  "starts_with [] d = True"
| "starts_with (x # xs) [] = False"
| "starts_with (x # xs) (c # cs) = (x = c \<and> starts_with xs cs)"

fun contains :: "string \<Rightarrow> string \<Rightarrow> bool" where
  "contains x [] = (x = [])"
| "contains x (c # cs) = (starts_with x (c # cs) \<or> contains x cs)"

section \<open>Assisted rule 6: similar descriptions\<close>

text \<open>
  The class \<^verbatim>\<open>\w\<close> of \<^verbatim>\<open>re\<close> on the code points below U+0100: the characters for which
  \<^verbatim>\<open>str.isalnum\<close> holds, and the underscore.
\<close>

definition is_word_char :: "char \<Rightarrow> bool" where
  "is_word_char c =
     (let n = (of_char c :: nat) in
      (48 \<le> n \<and> n \<le> 57) \<or> (65 \<le> n \<and> n \<le> 90) \<or> n = 95 \<or> (97 \<le> n \<and> n \<le> 122) \<or>
      n = 170 \<or> n = 178 \<or> n = 179 \<or> n = 181 \<or> n = 185 \<or> n = 186 \<or>
      (188 \<le> n \<and> n \<le> 190) \<or> (192 \<le> n \<and> n \<le> 214) \<or> (216 \<le> n \<and> n \<le> 246) \<or> 248 \<le> n)"

definition STOP_LABELS :: "string list" where
  "STOP_LABELS = [''MCA'', ''MOD'', ''SERIE'', ''CAP'', ''CAPACIDADE'', ''TAG'']"

text \<open>The labels in the order of the alternation of the pattern.\<close>

definition PATTERN_LABELS :: "string list" where
  "PATTERN_LABELS = [''MCA'', ''MOD'', ''SERIE'', ''CAP'', ''CAPACIDADE'', ''TAG'']"

text \<open>A literal of the pattern at the head of the text, ignoring case; the rest of the text.\<close>

fun ci_literal :: "string \<Rightarrow> string \<Rightarrow> string option" where
  "ci_literal [] s = Some s"
| "ci_literal (l # ls) [] = None"
| "ci_literal (l # ls) (c # cs) = (if ascii_fold c = l then ci_literal ls cs else None)"

text \<open>\<^verbatim>\<open>\s*[:=]\<close> at the head of the text.\<close>

definition colon_after :: "string \<Rightarrow> bool" where
  "colon_after s =
     (case dropWhile py_isspace s of [] \<Rightarrow> False | c # cs \<Rightarrow> c = CHR '':'' \<or> c = CHR ''='')"

text \<open>\<^verbatim>\<open>(MCA|MOD|SERIE|CAP|CAPACIDADE|TAG)\s*[:=]\<close> at the head of the text.\<close>

definition label_colon :: "string \<Rightarrow> bool" where
  "label_colon s =
     (\<exists>l \<in> set PATTERN_LABELS. case ci_literal l s of None \<Rightarrow> False | Some r \<Rightarrow> colon_after r)"

text \<open>
  \<^verbatim>\<open>re.sub(pattern, " ", s, flags=re.IGNORECASE)\<close>, read from left to right. \<open>in_match\<close>
  tells that the characters read belong to a match; \<open>prev_word\<close> that the character before
  is one of \<^verbatim>\<open>\w\<close>. A match starts at a word boundary where a label with its \<^verbatim>\<open>:\<close> or
  \<^verbatim>\<open>=\<close> follows, and runs (lazily) up to the next such place or to the end; each match is
  replaced by one space.
\<close>

fun sub_labels :: "bool \<Rightarrow> bool \<Rightarrow> string \<Rightarrow> string" where
  "sub_labels in_match prev_word [] = []"
| "sub_labels in_match prev_word (c # cs) =
     (if \<not> prev_word \<and> label_colon (c # cs)
      then CHR '' '' # sub_labels True (is_word_char c) cs
      else if in_match then sub_labels True (is_word_char c) cs
      else c # sub_labels False (is_word_char c) cs)"

definition strip_noise_fields :: "string \<Rightarrow> string" where
  "strip_noise_fields desc =
     (if desc = [] then []
      else sub_labels False False
             (map (\<lambda>c. if c = CHR 0x0A \<or> c = CHR 0x0D then CHR '' '' else c) desc))"

text \<open>\<^verbatim>\<open>re.findall(r"[A-Z0-9]+", s)\<close>: the maximal runs of capitals and digits.\<close>

definition is_AZ09 :: "char \<Rightarrow> bool" where
  "is_AZ09 c = (let n = (of_char c :: nat) in (48 \<le> n \<and> n \<le> 57) \<or> (65 \<le> n \<and> n \<le> 90))"

definition is_09 :: "char \<Rightarrow> bool" where
  "is_09 c = (let n = (of_char c :: nat) in 48 \<le> n \<and> n \<le> 57)"

fun findall_AZ09 :: "string \<Rightarrow> string \<Rightarrow> string list" where
  "findall_AZ09 cur [] = (if cur = [] then [] else [cur])"
| "findall_AZ09 cur (c # cs) =
     (if is_AZ09 c then findall_AZ09 (cur @ [c]) cs
      else if cur = [] then findall_AZ09 [] cs
      else cur # findall_AZ09 [] cs)"

text \<open>
  The loop of \<open>_desc_attr_set\<close> over the tokens, the set \<open>out\<close> kept as the list of its
  elements, the last added first. (The order in which Python iterates over a set is not
  specified; the loops below take the attribute sets as lists in some order, and what is
  proved of them holds for every order.)
\<close>

fun attrs_of_tokens :: "string list \<Rightarrow> string list \<Rightarrow> string list" where
  "attrs_of_tokens out [] = out"
| "attrs_of_tokens out (tok # toks) =
     (if tok \<in> set STOP_LABELS then attrs_of_tokens out toks
      else if list_all is_09 tok then
        (if 2 \<le> length tok then attrs_of_tokens (List.insert tok out) toks
         else attrs_of_tokens out toks)
      else if 3 \<le> length tok then attrs_of_tokens (List.insert (take 3 tok) out) toks
      else attrs_of_tokens out toks)"

definition desc_attr_list :: "string \<Rightarrow> string list" where
  "desc_attr_list desc =
     (if desc = [] then []
      else attrs_of_tokens [] (findall_AZ09 [] (py_upper (strip_noise_fields desc))))"

definition desc_attr_set :: "string \<Rightarrow> string set" where
  "desc_attr_set desc = set (desc_attr_list desc)"

















section \<open>The greedy pairing of rule 6 is best-first\<close>



















































section \<open>Rules 1 to 5 and containment\<close>

text \<open>
  A pending physical record whose serial holds an underscore, and a pending accounting
  parent whose description holds another character at that place.
\<close>

definition fis_wildcard :: fis_row where
  "fis_wildcard = (mk_fis 1 0) \<lparr> f_SERIE_NORM := Some ''AB_D1'' \<rparr>"

definition ctb_wildcard :: ctb_row where
  "ctb_wildcard = (mk_ctb 10 0 0) \<lparr> c_DESC_NORM := Some ''ITEM ABXD1'' \<rparr>"

definition db_wildcard :: db where
  "db_wildcard = \<lparr> fisico = [fis_wildcard], contabil = [ctb_wildcard], depara = [],
                    conciliados = [], uq_conc_base_id = False \<rparr>"

lemma like_percent: "like_match ''%'' d"
  by (induction d) simp_all

lemma starts_with_Nil: "starts_with x [] = (x = [])"
  by (cases x) simp_all

lemma like_prefix:
  assumes "CHR ''%'' \<notin> set x" "CHR ''_'' \<notin> set x"
    and "list_all (\<lambda>c. ascii_fold c = c) x" "list_all (\<lambda>c. ascii_fold c = c) d"
  shows "like_match (x @ ''%'') d = starts_with x d"
  using assms
proof (induction x arbitrary: d)
  case Nil
  show ?case by (simp add: like_percent)
next
  case (Cons a xs)
  show ?case
  proof (cases d)
    case Nil
    with Cons.prems show ?thesis by auto
  next
    case (Cons c cs)
    from Cons.prems Cons have "like_match (xs @ ''%'') cs = starts_with xs cs"
      by (intro Cons.IH) simp_all
    with Cons.prems Cons show ?thesis by auto
  qed
qed

lemma like_contains:
  assumes "CHR ''%'' \<notin> set x" "CHR ''_'' \<notin> set x"
    and "list_all (\<lambda>c. ascii_fold c = c) x" "list_all (\<lambda>c. ascii_fold c = c) d"
  shows "like_match (CHR ''%'' # x @ ''%'') d = contains x d"
  using assms(4)
proof (induction d)
  case Nil
  have "like_match (x @ ''%'') [] = starts_with x []"
    by (rule like_prefix [OF assms(1-3)]) simp
  then show ?case by (simp add: starts_with_Nil)
next
  case (Cons c cs)
  have "like_match (x @ ''%'') (c # cs) = starts_with x (c # cs)"
    by (rule like_prefix [OF assms(1-3) Cons.prems])
  moreover have "like_match (CHR ''%'' # x @ ''%'') cs = contains x cs"
    using Cons by simp
  ultimately show ?case by simp
qed

lemma starts_with_iff: "starts_with x d = (\<exists>post. d = x @ post)"
proof (induction x d rule: starts_with.induct)
  case (1 d)
  show ?case by simp
next
  case (2 x xs)
  show ?case by simp
next
  case (3 x xs c cs)
  then show ?case by auto
qed

lemma contains_iff: "contains x d = (\<exists>pre post. d = pre @ x @ post)"
proof (induction d)
  case Nil
  show ?case by auto
next
  case (Cons c cs)
  have "(\<exists>pre post. c # cs = pre @ x @ post) =
        ((\<exists>post. c # cs = x @ post) \<or> (\<exists>pre post. cs = pre @ x @ post))"
  proof
    assume "\<exists>pre post. c # cs = pre @ x @ post"
    then obtain pre post where e: "c # cs = pre @ x @ post" by blast
    show "(\<exists>post. c # cs = x @ post) \<or> (\<exists>pre post. cs = pre @ x @ post)"
    proof (cases pre)
      case Nil
      with e show ?thesis by auto
    next
      case (Cons p ps)
      with e have "cs = ps @ x @ post" by simp
      then show ?thesis by blast
    qed
  next
    assume "(\<exists>post. c # cs = x @ post) \<or> (\<exists>pre post. cs = pre @ x @ post)"
    then show "\<exists>pre post. c # cs = pre @ x @ post"
    proof
      assume "\<exists>post. c # cs = x @ post"
      then obtain post where "c # cs = [] @ x @ post" by auto
      then show ?thesis by blast
    next
      assume "\<exists>pre post. cs = pre @ x @ post"
      then obtain pre post where "c # cs = (c # pre) @ x @ post" by auto
      then show ?thesis by blast
    qed
  qed
  with Cons show ?case by (simp add: starts_with_iff)
qed

text \<open>
  Where the generating term holds neither \<^verbatim>\<open>%\<close> nor \<^verbatim>\<open>_\<close> (and, as normalized values do,
  no lower-case ASCII letter), rules 1, 2, 4 and 5 are the containment of a term of at
  least 4 characters.
\<close>

lemma len4_contained_iff:
  assumes "CHR ''%'' \<notin> set x" "CHR ''_'' \<notin> set x"
    and "list_all (\<lambda>c. ascii_fold c = c) x" "list_all (\<lambda>c. ascii_fold c = c) dsc"
  shows "len4_contained (Some x) (Some dsc) = (4 \<le> length x \<and> contains x dsc)"
  by (simp add: len4_contained_def like_contains [OF assms])

lemma len4_contained_short: "length x \<le> 3 \<Longrightarrow> \<not> len4_contained (Some x) dsc"
  by (simp add: len4_contained_def split: option.splits)

lemma serial_example:
  "join_cond ''1'' ((mk_fis 1 0) \<lparr> f_SERIE_NORM := Some ''ABC1234'' \<rparr>)
     ((mk_ctb 10 0 0) \<lparr> c_DESC_NORM := Some ''ITEM ABC1234 LOCAL X'' \<rparr>)"
  by code_simp

text \<open>
  Claim C8. The containment rule is to yield a candidate pair exactly when the normalized
  physical serial has at least 4 characters and occurs in the normalized accounting
  description. The code compares with \<^verbatim>\<open>LIKE\<close> and does not escape the serial: for the
  pending physical serial \<^verbatim>\<open>AB_D1\<close> and the pending accounting parent described as
  \<^verbatim>\<open>ITEM ABXD1\<close>, rule 1 yields the pair, although the serial does not occur in the
  description.
\<close>

theorem like_wildcard_in_serial_is_candidate:
  "auto02_join db_wildcard ''1'' = [(fis_wildcard, ctb_wildcard)] \<and>
   f_SERIE_NORM fis_wildcard = Some ''AB_D1'' \<and>
   c_DESC_NORM ctb_wildcard = Some ''ITEM ABXD1'' \<and>
   \<not> contains ''AB_D1'' ''ITEM ABXD1''"
  by code_simp

end
